theory Spec2Isabelle
  imports Main "HOL-Library.Sublist" "HOL-Library.Multiset"
begin

section \<open>Digital signage: asset acquisition and playlist cycling\<close>

text \<open>
  A shallow embedding of the asset downloader (\<open>AssetDownloader\<close>, \<open>AssetCycler\<close>), the date
  helpers (\<open>isPlaylistActive\<close>) and the initializer (\<open>DigitalSignageInitializer\<close>).

  Conventions of the embedding.
  \<^item> A JavaScript string is a \<open>string\<close>; each \<open>char\<close> stands for one UTF-16 code unit
    below 256.
  \<^item> A JavaScript number is a double. Those the code obtains from \<open>parseInt\<close>, or by
    adding and subtracting such numbers, are a \<open>jsnum\<close>: \<open>NaN\<close>, an infinity, or an
    integer, kept as the \<open>int\<close> it is and rounded to the nearest double by every operation
    that produces it. The two zeros are one value: nothing the code does with these
    numbers tells them apart.
  \<^item> A value of type \<open>string | null | undefined\<close> is a \<open>string option\<close>.
  \<^item> A thrown value is a \<open>js_exn\<close>; code that may throw returns \<open>js_exn + 'a\<close>.
\<close>

subsection \<open>Numbers and strings of the host language\<close>

datatype jsnum = NaN | Num int | PosInfinity | NegInfinity

datatype js_exn = Error string | Thrown

text \<open>The number of binary digits of a positive integer.\<close>

function bitLength :: "int \<Rightarrow> nat" where
  "bitLength n = (if n \<le> 0 then 0 else Suc (bitLength (n div 2)))"
  by pat_completeness auto
termination
  by (relation "measure nat") auto

text \<open>
  The double nearest to an integer. Up to 53 binary digits the integer is a double. Beyond,
  the digits after the 53rd are rounded away, to the nearest multiple of \<open>2 ^ e\<close> and to
  the even one of two nearest; a result that needs more than 1024 binary digits is beyond
  the largest double and becomes an infinity.
\<close>

definition toDouble :: "int \<Rightarrow> jsnum" where
  "toDouble n =
     (let a = \<bar>n\<bar>; bits = bitLength a
      in if bits \<le> 53 then Num n
         else (let e = bits - 53;
                   q = a div 2 ^ e;
                   r = a mod 2 ^ e;
                   half = 2 ^ (e - 1);
                   m = (if r < half \<or> (r = half \<and> even q) then q else q + 1)
               in if bitLength m + e > 1024
                  then (if n < 0 then NegInfinity else PosInfinity)
                  else Num (sgn n * (m * 2 ^ e))))"

text \<open>Negation, addition and subtraction of doubles that are integers, infinite or \<open>NaN\<close>.\<close>

fun js_neg :: "jsnum \<Rightarrow> jsnum" where
  "js_neg NaN = NaN"
| "js_neg (Num x) = Num (- x)"
| "js_neg PosInfinity = NegInfinity"
| "js_neg NegInfinity = PosInfinity"

fun js_add :: "jsnum \<Rightarrow> jsnum \<Rightarrow> jsnum" where
  "js_add NaN b = NaN"
| "js_add a NaN = NaN"
| "js_add (Num x) (Num y) = toDouble (x + y)"
| "js_add PosInfinity NegInfinity = NaN"
| "js_add NegInfinity PosInfinity = NaN"
| "js_add PosInfinity b = PosInfinity"
| "js_add NegInfinity b = NegInfinity"
| "js_add a PosInfinity = PosInfinity"
| "js_add a NegInfinity = NegInfinity"

definition js_sub :: "jsnum \<Rightarrow> jsnum \<Rightarrow> jsnum" where
  "js_sub a b = js_add a (js_neg b)"

text \<open>The relational operators: every comparison with \<open>NaN\<close> is false.\<close>

fun js_lt :: "jsnum \<Rightarrow> jsnum \<Rightarrow> bool" where
  "js_lt NaN b = False"
| "js_lt a NaN = False"
| "js_lt (Num x) (Num y) = (x < y)"
| "js_lt a NegInfinity = False"
| "js_lt PosInfinity b = False"
| "js_lt NegInfinity b = True"
| "js_lt a PosInfinity = True"

fun js_le :: "jsnum \<Rightarrow> jsnum \<Rightarrow> bool" where
  "js_le NaN b = False"
| "js_le a NaN = False"
| "js_le (Num x) (Num y) = (x \<le> y)"
| "js_le NegInfinity b = True"
| "js_le a PosInfinity = True"
| "js_le a NegInfinity = False"
| "js_le PosInfinity b = False"

definition js_gt :: "jsnum \<Rightarrow> jsnum \<Rightarrow> bool" where
  "js_gt a b = js_lt b a"

definition js_ge :: "jsnum \<Rightarrow> jsnum \<Rightarrow> bool" where
  "js_ge a b = js_le b a"

text \<open>\<open>String.prototype.includes\<close>: the argument occurs as a contiguous substring.\<close>

fun includes_str :: "string \<Rightarrow> string \<Rightarrow> bool" where
  "includes_str [] sub = (sub = [])"
| "includes_str (c # cs) sub = (prefix sub (c # cs) \<or> includes_str cs sub)"

text \<open>\<open>String.prototype.startsWith\<close> and \<open>endsWith\<close>.\<close>

definition startsWith :: "string \<Rightarrow> string \<Rightarrow> bool" where
  "startsWith s p = prefix p s"

definition endsWith :: "string \<Rightarrow> string \<Rightarrow> bool" where
  "endsWith s p = suffix p s"

text \<open>Truthiness of a \<open>string | null | undefined\<close>: only a non-empty string is truthy.\<close>

fun truthy :: "string option \<Rightarrow> bool" where
  "truthy None = False"
| "truthy (Some s) = (s \<noteq> [])"

subsection \<open>The manifest (\<open>getInstructions.ts\<close>)\<close>

record Asset =
  a_id :: string
  a_name :: string
  filepath :: string
  filetype :: string
  playing_order :: string
  time :: string

record Playlist =
  p_id :: string
  p_name :: string
  starttime :: "string option"
  endtime :: "string option"
  startdate :: "string option"
  enddate :: "string option"
  weekdays :: "string option"
  is_default :: bool
  p_assets :: "Asset list"

record ApiResponse =
  is_restarting :: bool
  playlists :: "Playlist list"

text \<open>
  The asset part of \<open>isValidApiResponse\<close>: every field is truthy, which for a string means
  non-empty. Nothing checks that \<open>playing_order\<close> or \<open>time\<close> is numeric.
\<close>

definition validAsset :: "Asset \<Rightarrow> bool" where
  "validAsset a =
     (a_id a \<noteq> [] \<and> a_name a \<noteq> [] \<and> filepath a \<noteq> [] \<and> filetype a \<noteq> [] \<and>
      playing_order a \<noteq> [] \<and> time a \<noteq> [])"

subsection \<open>Stream classification\<close>

text \<open>
  The test written out at every place that classifies an asset (\<open>downloadAsset\<close>,
  \<open>downloadAllAssets\<close>, \<open>prepareAssetsForWebview\<close>, \<open>preparePlaylistsForCycling\<close>,
  \<open>prepareFinalResult\<close>):
  \<^verbatim>\<open>asset.filetype === "stream" || asset.filepath.includes(".m3u8")\<close>
\<close>

definition isStreamAsset :: "Asset \<Rightarrow> bool" where
  "isStreamAsset a = (filetype a = ''stream'' \<or> includes_str (filepath a) ''.m3u8'')"

text \<open>
  The complement as \<open>downloadAllAssets\<close> writes it for the downloadable assets:
  \<^verbatim>\<open>asset.filetype !== "stream" && !asset.filepath.includes(".m3u8")\<close>
\<close>

definition isDownloadable :: "Asset \<Rightarrow> bool" where
  "isDownloadable a = (filetype a \<noteq> ''stream'' \<and> \<not> includes_str (filepath a) ''.m3u8'')"

text \<open>The classification as the specification words it: the source location ends with the extension.\<close>

definition spec_isStream :: "Asset \<Rightarrow> bool" where
  "spec_isStream a = (filetype a = ''stream'' \<or> endsWith (filepath a) ''.m3u8'')"

subsection \<open>Compiled playlists (\<open>assetDownloader.ts\<close>)\<close>

record WebviewAsset =
  w_id :: string
  w_name :: string
  w_filetype :: string
  w_playing_order :: jsnum
  displayTime :: jsnum
  displayPath :: "string option"
  isStream :: bool
  originalPath :: string

record PlaylistCycle =
  playlistId :: string
  playlistName :: string
  assets :: "WebviewAsset list"
  totalCycleDuration :: jsnum
  isDefault :: bool
  startDate :: "string option"
  endDate :: "string option"

record DownloadResult =
  asset :: Asset
  success :: bool
  error :: "string option"
  localPath :: "string option"

subsection \<open>The active-date window\<close>

text \<open>
  \<open>new Date(s)\<close> is a parameter \<open>Date_parse\<close> of the checks: it yields the time value in
  milliseconds, or \<open>NaN\<close> for an invalid date. The current moment \<open>now\<close> is a valid time
  value. Comparing two dates compares their time values.
\<close>

text \<open>
  \<open>AssetCycler.isPlaylistActive\<close>, the check of the cycle scheduler:
  \<^verbatim>\<open>
  if (this.currentPlaylist.startDate) { ... if (now < startDate) return false; }
  if (this.currentPlaylist.endDate)   { ... if (now > endDate) return false; }
  return true;
  \<close>
\<close>

definition AssetCycler_isPlaylistActive ::
  "(string \<Rightarrow> jsnum) \<Rightarrow> int \<Rightarrow> PlaylistCycle \<Rightarrow> bool" where
  "AssetCycler_isPlaylistActive Date_parse now currentPlaylist =
     (if (case startDate currentPlaylist of
            None \<Rightarrow> False
          | Some s \<Rightarrow> s \<noteq> [] \<and> js_lt (Num now) (Date_parse s))
      then False
      else if (case endDate currentPlaylist of
            None \<Rightarrow> False
          | Some e \<Rightarrow> e \<noteq> [] \<and> js_gt (Num now) (Date_parse e))
      then False
      else True)"

text \<open>
  The standalone helper \<open>isPlaylistActive(startDate, endDate)\<close> of the date utilities:
  \<^verbatim>\<open>
  if (startDate && new Date(startDate) > now) return false;
  if (endDate && new Date(endDate) <= now) return false;
  return true;
  \<close>
\<close>

definition isPlaylistActive ::
  "(string \<Rightarrow> jsnum) \<Rightarrow> int \<Rightarrow> string option \<Rightarrow> string option \<Rightarrow> bool" where
  "isPlaylistActive Date_parse now startDate' endDate' =
     (if (case startDate' of
            None \<Rightarrow> False
          | Some s \<Rightarrow> s \<noteq> [] \<and> js_gt (Date_parse s) (Num now))
      then False
      else if (case endDate' of
            None \<Rightarrow> False
          | Some e \<Rightarrow> e \<noteq> [] \<and> js_le (Date_parse e) (Num now))
      then False
      else True)"

text \<open>
  A date parser for the examples: it knows one ISO timestamp, the first millisecond of
  2025 in UTC, and rejects everything else.
\<close>

definition Date_parse_2025 :: "string \<Rightarrow> jsnum" where
  "Date_parse_2025 s =
     (if s = ''2025-01-01T00:00:00.000Z'' then Num 1735689600000 else NaN)"

definition newYearCycle :: PlaylistCycle where
  "newYearCycle =
     \<lparr>playlistId = ''p1'', playlistName = ''December'',
      assets = [\<lparr>w_id = ''a1'', w_name = ''tree'', w_filetype = ''image'',
                 w_playing_order = Num 1, displayTime = Num 5,
                 displayPath = Some ''assets/main/a1_tree.jpg'', isStream = False,
                 originalPath = ''http://h/tree.jpg''\<rparr>],
      totalCycleDuration = Num 5, isDefault = True,
      startDate = None, endDate = Some ''2025-01-01T00:00:00.000Z''\<rparr>"

subsection \<open>\<open>parseInt(s, 10)\<close>\<close>

text \<open>
  \<open>parseInt\<close> with radix 10: leading white space is skipped, one sign is read, then the
  longest run of decimal digits; without a digit the result is \<open>NaN\<close>. Whatever follows the
  digits is ignored. The result is the double nearest to the integer read. (The language
  lets an implementation read the digits after the 20th as zeros; the run-time does not.)
\<close>

definition isWhiteSpace :: "char \<Rightarrow> bool" where
  "isWhiteSpace c =
     (c \<in> set [CHR 0x09, CHR 0x0A, CHR 0x0B, CHR 0x0C, CHR 0x0D, CHR 0x20, CHR 0xA0])"

definition isDigit :: "char \<Rightarrow> bool" where
  "isDigit c = (c \<in> set ''0123456789'')"

definition digitValue :: "char \<Rightarrow> int" where
  "digitValue c = int (of_char c) - 48"

definition digitsValue :: "string \<Rightarrow> int" where
  "digitsValue ds = foldl (\<lambda>acc c. 10 * acc + digitValue c) 0 ds"

definition parseInt10 :: "string \<Rightarrow> jsnum" where
  "parseInt10 s =
     (let S = dropWhile isWhiteSpace s;
          sign = (if S \<noteq> [] \<and> hd S = CHR ''-'' then - 1 else 1);
          S' = (if S \<noteq> [] \<and> (hd S = CHR ''+'' \<or> hd S = CHR ''-'') then tl S else S);
          Z = takeWhile isDigit S'
      in if Z = [] then NaN else toDouble (sign * digitsValue Z))"

subsection \<open>\<open>Array.prototype.sort\<close> with a comparator\<close>

text \<open>
  The language makes \<open>sort\<close> stable and reads a comparator result \<open>NaN\<close> as \<open>+0\<close>; under a
  comparator that is not consistent (as one that yields \<open>NaN\<close>) it leaves the order to the
  implementation. The embedding is the run-time's algorithm for arrays of fewer than 64
  elements, which are sorted as one run: the longest run at the front that is ascending,
  or strictly descending and then reversed, is taken as sorted, and every further element
  is put in place by a binary search that asks only whether the comparator's result is
  negative. Longer arrays are cut into several such runs and merged, with the same result
  under a consistent comparator.
\<close>

definition negative :: "jsnum \<Rightarrow> bool" where
  "negative v = js_lt v (Num 0)"

text \<open>How many further elements continue the run that ends with \<open>previous\<close>.\<close>

fun runLength :: "('a \<Rightarrow> 'a \<Rightarrow> jsnum) \<Rightarrow> bool \<Rightarrow> 'a \<Rightarrow> 'a list \<Rightarrow> nat" where
  "runLength cmp descending previous [] = 0"
| "runLength cmp descending previous (current # rest) =
     (if negative (cmp current previous) = descending
      then Suc (runLength cmp descending current rest) else 0)"

text \<open>The run at the front, made ascending, and the elements after it.\<close>

definition countAndMakeRun :: "('a \<Rightarrow> 'a \<Rightarrow> jsnum) \<Rightarrow> 'a list \<Rightarrow> 'a list \<times> 'a list" where
  "countAndMakeRun cmp xs =
     (case xs of
        low # high # rest \<Rightarrow>
          (let descending = negative (cmp high low);
               n = 2 + runLength cmp descending high rest
           in (if descending then rev (take n xs) else take n xs, drop n xs))
      | _ \<Rightarrow> (xs, []))"

text \<open>The place of the pivot among the sorted elements \<open>ys\<close>, between \<open>left\<close> and \<open>right\<close>.\<close>

function binarySearch :: "('a \<Rightarrow> 'a \<Rightarrow> jsnum) \<Rightarrow> 'a \<Rightarrow> 'a list \<Rightarrow> nat \<Rightarrow> nat \<Rightarrow> nat" where
  "binarySearch cmp pivot ys left right =
     (if left < right
      then (let mid = left + (right - left) div 2
            in if negative (cmp pivot (ys ! mid))
               then binarySearch cmp pivot ys left mid
               else binarySearch cmp pivot ys (mid + 1) right)
      else left)"
  by pat_completeness auto
termination
  by (relation "measure (\<lambda>(cmp, pivot, ys, left, right). right - left)") auto

definition binaryInsert :: "('a \<Rightarrow> 'a \<Rightarrow> jsnum) \<Rightarrow> 'a list \<Rightarrow> 'a \<Rightarrow> 'a list" where
  "binaryInsert cmp ys pivot =
     (let left = binarySearch cmp pivot ys 0 (length ys)
      in take left ys @ pivot # drop left ys)"

definition array_sort :: "('a \<Rightarrow> 'a \<Rightarrow> jsnum) \<Rightarrow> 'a list \<Rightarrow> 'a list" where
  "array_sort cmp xs =
     (let (run, rest) = countAndMakeRun cmp xs in foldl (binaryInsert cmp) run rest)"

subsection \<open>The playlist compiler\<close>

text \<open>The comparator \<^verbatim>\<open>(a, b) => a.playing_order - b.playing_order\<close>.\<close>

definition byPlayingOrder :: "WebviewAsset \<Rightarrow> WebviewAsset \<Rightarrow> jsnum" where
  "byPlayingOrder a b = js_sub (w_playing_order a) (w_playing_order b)"

text \<open>
  The object literal both compilers build from an asset and the \<open>localPath\<close> of its
  download result.
\<close>

definition toWebviewAsset :: "Asset \<Rightarrow> string option \<Rightarrow> WebviewAsset" where
  "toWebviewAsset a lp =
     \<lparr>w_id = a_id a, w_name = a_name a, w_filetype = filetype a,
      w_playing_order = parseInt10 (playing_order a),
      displayTime = parseInt10 (time a),
      displayPath = (if isStreamAsset a then Some (filepath a) else lp),
      isStream = isStreamAsset a,
      originalPath = filepath a\<rparr>"

definition prepareAssetsForWebview :: "DownloadResult list \<Rightarrow> WebviewAsset list" where
  "prepareAssetsForWebview results =
     array_sort byPlayingOrder
       (map (\<lambda>r. toWebviewAsset (asset r) (localPath r)) (filter success results))"

text \<open>
  The inner \<open>map\<close> and \<open>filter\<close> of \<open>preparePlaylistsForCycling\<close>: each asset of the playlist
  is joined to the first successful result with its identifier; assets without one are
  dropped.
\<close>

definition resolveAsset :: "DownloadResult list \<Rightarrow> Asset \<Rightarrow> WebviewAsset option" where
  "resolveAsset results a =
     (case find (\<lambda>r. a_id (asset r) = a_id a \<and> success r) results of
        None \<Rightarrow> None
      | Some result \<Rightarrow> Some (toWebviewAsset a (localPath result)))"

definition resolvedAssets :: "DownloadResult list \<Rightarrow> Playlist \<Rightarrow> WebviewAsset list" where
  "resolvedAssets results playlist =
     map the (filter (\<lambda>x. x \<noteq> None) (map (resolveAsset results) (p_assets playlist)))"

text \<open>The \<open>reduce\<close> that adds up the display times, starting from 0.\<close>

definition sumDisplayTime :: "WebviewAsset list \<Rightarrow> jsnum" where
  "sumDisplayTime ws = foldl (\<lambda>sum w. js_add sum (displayTime w)) (Num 0) ws"

definition compilePlaylist :: "DownloadResult list \<Rightarrow> Playlist \<Rightarrow> PlaylistCycle" where
  "compilePlaylist results playlist =
     (let playlistAssets = array_sort byPlayingOrder (resolvedAssets results playlist)
      in \<lparr>playlistId = p_id playlist, playlistName = p_name playlist,
          assets = playlistAssets,
          totalCycleDuration = sumDisplayTime playlistAssets,
          isDefault = is_default playlist,
          startDate = startdate playlist, endDate = enddate playlist\<rparr>)"

definition preparePlaylistsForCycling ::
  "ApiResponse \<Rightarrow> DownloadResult list \<Rightarrow> PlaylistCycle list" where
  "preparePlaylistsForCycling apiResponse results =
     filter (\<lambda>playlist. length (assets playlist) > 0)
       (map (compilePlaylist results) (playlists apiResponse))"

text \<open>
  The integer a number stands for (0 where it is not an integer), and the integer
  ordering key of a compiled asset.
\<close>

fun the_int :: "jsnum \<Rightarrow> int" where
  "the_int (Num n) = n"
| "the_int v = 0"

definition orderKey :: "WebviewAsset \<Rightarrow> int" where
  "orderKey w = the_int (w_playing_order w)"

text \<open>
  A string of 1 to 15 decimal digits (it denotes an integer below \<open>10 ^ 15\<close>, which is a
  double), and an asset whose \<open>time\<close> and \<open>playing_order\<close> are such strings.
\<close>

definition isDecimal :: "string \<Rightarrow> bool" where
  "isDecimal s = (s \<noteq> [] \<and> length s \<le> 15 \<and> list_all isDigit s)"

definition decimalAsset :: "Asset \<Rightarrow> bool" where
  "decimalAsset a = (isDecimal (time a) \<and> isDecimal (playing_order a))"

subsection \<open>Host functions\<close>

text \<open>
  Two library functions are parameters of the embedding, collected in a record:
  \<^item> \<open>URL_pathname s\<close> is \<open>new URL(s).pathname\<close>, or \<open>None\<close> where the constructor throws
    (an invalid URL);
  \<^item> \<open>path_join dir name\<close> is \<open>path.join(dir, name)\<close>.
\<close>

record host =
  URL_pathname :: "string \<Rightarrow> string option"
  path_join :: "string \<Rightarrow> string \<Rightarrow> string"

subsection \<open>File names\<close>

text \<open>The last element of \<open>s.split("/")\<close>: what follows the last slash (all of \<open>s\<close> without one).\<close>

definition lastSegment :: "string \<Rightarrow> string" where
  "lastSegment s = rev (takeWhile (\<lambda>c. c \<noteq> CHR ''/'') (rev s))"

text \<open>The characters the expression \<^verbatim>\<open>/[^a-zA-Z0-9.-]/g\<close> leaves alone.\<close>

definition isUpper :: "char \<Rightarrow> bool" where
  "isUpper c = (c \<in> set ''ABCDEFGHIJKLMNOPQRSTUVWXYZ'')"

definition isLower :: "char \<Rightarrow> bool" where
  "isLower c = (c \<in> set ''abcdefghijklmnopqrstuvwxyz'')"

definition keeps :: "char \<Rightarrow> bool" where
  "keeps c = (isLower c \<or> isUpper c \<or> isDigit c \<or> c = CHR ''.'' \<or> c = CHR ''-'')"

text \<open>\<^verbatim>\<open>filename.replace(/[^a-zA-Z0-9.-]/g, "_")\<close>: every other character becomes an underscore.\<close>

definition replaceUnsafe :: "string \<Rightarrow> string" where
  "replaceUnsafe s = map (\<lambda>c. if keeps c then c else CHR ''_'') s"

text \<open>
  \<open>toLowerCase\<close> on code units below 256: the letters \<open>A\<close> to \<open>Z\<close>, and the Latin-1 capitals
  \<open>0xC0\<close> to \<open>0xDE\<close> except the multiplication sign \<open>0xD7\<close>, move up by 32.
\<close>

definition lowerChar :: "char \<Rightarrow> char" where
  "lowerChar c =
     (let n = (of_char c :: nat)
      in if (65 \<le> n \<and> n \<le> 90) \<or> (192 \<le> n \<and> n \<le> 222 \<and> n \<noteq> 215) then char_of (n + 32) else c)"

definition toLowerCase :: "string \<Rightarrow> string" where
  "toLowerCase s = map lowerChar s"

text \<open>
  \<open>getExtensionFromFiletype\<close>: \<^verbatim>\<open>extensions[filetype.toLowerCase()] || ".bin"\<close>. The table is
  an object literal with five keys of its own, so the lookup also finds what every object
  inherits from \<open>Object.prototype\<close>. Of the inherited names only \<open>constructor\<close> and
  \<open>__proto__\<close> have no capital letter and can equal a lower-cased string; their values are
  truthy, and appended to the file name they read as the run-time (Node) prints them.
\<close>

definition getExtensionFromFiletype :: "string \<Rightarrow> string" where
  "getExtensionFromFiletype ft =
     (let key = toLowerCase ft
      in if key = ''stream'' then ''.m3u8''
         else if key = ''video'' then ''.mp4''
         else if key = ''audio'' then ''.mp3''
         else if key = ''image'' then ''.jpg''
         else if key = ''text'' then ''.txt''
         else if key = ''constructor'' then ''function Object() { [native code] }''
         else if key = ''__proto__'' then ''[object Object]''
         else ''.bin'')"

text \<open>
  \<open>generateSafeFilename\<close>, in its two halves. First the name to start from: the asset's
  name, or the last path segment of the URL when the source location starts with \<open>http\<close>
  and that segment is non-empty and has a dot. The only statement that can throw is
  \<open>new URL(asset.filepath)\<close>.
\<close>

definition chosenName :: "host \<Rightarrow> Asset \<Rightarrow> js_exn + string" where
  "chosenName h a =
     (if startsWith (filepath a) ''http''
      then (case URL_pathname h (filepath a) of
              None \<Rightarrow> Inl (Error ''Invalid URL'')
            | Some pathname \<Rightarrow>
                (let urlFilename = lastSegment pathname
                 in if urlFilename \<noteq> [] \<and> includes_str urlFilename ''.''
                    then Inr urlFilename else Inr (a_name a)))
      else Inr (a_name a))"

text \<open>Then the cleaning, the extension where no dot is left, and the identifier in front.\<close>

definition safeName :: "Asset \<Rightarrow> string \<Rightarrow> string" where
  "safeName a filename =
     (let filename = replaceUnsafe filename;
          filename = (if \<not> includes_str filename ''.''
                      then filename @ getExtensionFromFiletype (filetype a)
                      else filename)
      in a_id a @ ''_'' @ filename)"

definition generateSafeFilename :: "host \<Rightarrow> Asset \<Rightarrow> js_exn + string" where
  "generateSafeFilename h a =
     (case chosenName h a of
        Inl e \<Rightarrow> Inl e
      | Inr filename \<Rightarrow> Inr (safeName a filename))"




subsection \<open>The world of a download\<close>

text \<open>
  What the network and the disk answer is not in the program's hands. The embedding
  reads it from an oracle: \<open>net w k\<close> tells, for the \<open>k\<close>-th attempt made in the world \<open>w\<close>,
  whether \<open>fetch\<close> rejects or with which status it resolves, whether reading the body
  throws, and whether writing the file throws. The world also counts the attempts made and
  keeps the trace of the effects performed. The progress callback is taken not to throw;
  its calls are part of the trace.
\<close>

record io =
  fetched :: "js_exn + nat"
  body :: "js_exn option"
  written :: "js_exn option"

datatype event =
    Notify string
  | Probe string
  | Warn
  | Fetch string
  | WriteFile string
  | Sleep nat

record world =
  net :: "nat \<Rightarrow> io"
  tick :: nat
  trace :: "event list"

definition emit :: "event list \<Rightarrow> world \<Rightarrow> world" where
  "emit es w = w\<lparr>trace := trace w @ es\<rparr>"

text \<open>\<open>response.ok\<close>: the status is in the range 200 to 299.\<close>

definition ok :: "nat \<Rightarrow> bool" where
  "ok status = (200 \<le> status \<and> status \<le> 299)"

text \<open>A natural number in decimal, as a template literal prints a status.\<close>

fun showNat :: "nat \<Rightarrow> string" where
  "showNat n = (if n < 10 then [char_of (48 + n)] else showNat (n div 10) @ [char_of (48 + n mod 10)])"

text \<open>
  \<^verbatim>\<open>error instanceof Error ? error.message : "Unknown error"\<close>, with the text that stands
  in for the message of a thrown value that is no \<open>Error\<close>.
\<close>

fun messageOr :: "string \<Rightarrow> js_exn \<Rightarrow> string" where
  "messageOr unknown (Error message) = message"
| "messageOr unknown Thrown = unknown"

subsection \<open>\<open>downloadAsset\<close>\<close>

text \<open>
  The body of the \<open>try\<close> block, one attempt, as a function of the oracle's answer: what
  the block returns or throws, and the effects it performs on the way. A stream is probed
  with a \<open>HEAD\<close> request whose failure is caught on the spot and only warned about; the
  attempt returns the successful result in either case. Any other asset is fetched, named
  and written, and each of these steps can throw.
\<close>

definition attempt :: "host \<Rightarrow> string \<Rightarrow> Asset \<Rightarrow> io \<Rightarrow> (js_exn + DownloadResult) \<times> event list" where
  "attempt h assetsDir a answer =
     (if isStreamAsset a
      then (let probeFailed = (case fetched answer of Inl e \<Rightarrow> True | Inr status \<Rightarrow> \<not> ok status)
            in (Inr \<lparr>asset = a, success = True, error = None, localPath = Some (filepath a)\<rparr>,
                [Notify ''downloading'', Probe (filepath a)] @ (if probeFailed then [Warn] else [])
                  @ [Notify ''completed'']))
      else (case fetched answer of
              Inl e \<Rightarrow> (Inl e, [Notify ''downloading'', Fetch (filepath a)])
            | Inr status \<Rightarrow>
                if \<not> ok status
                then (Inl (Error (''HTTP error! status: '' @ showNat status)),
                      [Notify ''downloading'', Fetch (filepath a)])
                else (case generateSafeFilename h a of
                        Inl e \<Rightarrow> (Inl e, [Notify ''downloading'', Fetch (filepath a)])
                      | Inr filename \<Rightarrow>
                          (let localPath' = path_join h assetsDir filename
                           in case body answer of
                                Some e \<Rightarrow> (Inl e, [Notify ''downloading'', Fetch (filepath a)])
                              | None \<Rightarrow>
                                  (case written answer of
                                     Some e \<Rightarrow> (Inl e, [Notify ''downloading'', Fetch (filepath a)])
                                   | None \<Rightarrow>
                                       (Inr \<lparr>asset = a, success = True, error = None,
                                             localPath = Some localPath'\<rparr>,
                                        [Notify ''downloading'', Fetch (filepath a),
                                         WriteFile localPath', Notify ''completed'']))))))"

text \<open>An attempt in a world: it uses up one answer of the oracle and extends the trace.\<close>

definition attemptOnce :: "host \<Rightarrow> string \<Rightarrow> Asset \<Rightarrow> world \<Rightarrow> (js_exn + DownloadResult) \<times> world" where
  "attemptOnce h assetsDir a w =
     (let (outcome, events) = attempt h assetsDir a (net w (tick w))
      in (outcome, emit events (w\<lparr>tick := Suc (tick w)\<rparr>)))"

text \<open>
  The retry loop \<^verbatim>\<open>for (let attempt = 1; attempt <= retries; attempt++)\<close> with its \<open>catch\<close>
  block, and the \<open>return\<close> after the loop. The retry bound is taken to be an integer. The
  pause before a retry is the delay handed to \<open>setTimeout\<close>, in milliseconds.
\<close>

function downloadAsset_from ::
  "host \<Rightarrow> string \<Rightarrow> Asset \<Rightarrow> int \<Rightarrow> int \<Rightarrow> world \<Rightarrow> DownloadResult \<times> world" where
  "downloadAsset_from h assetsDir a retries attempt' w =
     (if attempt' \<le> retries
      then (case attemptOnce h assetsDir a w of
              (Inr result, w') \<Rightarrow> (result, w')
            | (Inl e, w') \<Rightarrow>
                if attempt' = retries
                then (\<lparr>asset = a, success = False, error = Some (messageOr ''Unknown error'' e),
                       localPath = None\<rparr>,
                      emit [Notify ''failed''] w')
                else downloadAsset_from h assetsDir a retries (attempt' + 1)
                       (emit [Sleep (2 ^ nat attempt' * 1000)] w'))
      else (\<lparr>asset = a, success = False, error = Some ''Unexpected error in retry loop'',
             localPath = None\<rparr>, w))"
  by pat_completeness auto
termination
  by (relation "measure (\<lambda>(h, assetsDir, a, retries, attempt', w). nat (retries + 1 - attempt'))") auto

definition downloadAsset :: "host \<Rightarrow> string \<Rightarrow> Asset \<Rightarrow> int \<Rightarrow> world \<Rightarrow> DownloadResult \<times> world" where
  "downloadAsset h assetsDir a retries w = downloadAsset_from h assetsDir a retries 1 w"

text \<open>
  The oracle's answer to the \<open>k\<close>-th attempt (counted from 1) of a download that starts in
  the world \<open>w\<close>, and the pauses and file writes recorded in a trace.
\<close>

definition answerAt :: "world \<Rightarrow> int \<Rightarrow> io" where
  "answerAt w k = net w (tick w + nat (k - 1))"

fun sleeps :: "event list \<Rightarrow> nat list" where
  "sleeps [] = []"
| "sleeps (Sleep ms # es) = ms # sleeps es"
| "sleeps (e # es) = sleeps es"

fun writes :: "event list \<Rightarrow> string list" where
  "writes [] = []"
| "writes (WriteFile path # es) = path # writes es"
| "writes (e # es) = writes es"

subsection \<open>\<open>downloadAllAssets\<close>\<close>

text \<open>
  The loop over all assets: each is downloaded with a retry bound of 3, and a pause of
  100 ms follows every asset that is not a stream.
\<close>

fun downloadEach :: "host \<Rightarrow> string \<Rightarrow> Asset list \<Rightarrow> world \<Rightarrow> DownloadResult list \<times> world" where
  "downloadEach h assetsDir [] w = ([], w)"
| "downloadEach h assetsDir (a # allAssets) w =
     (let (result, w) = downloadAsset h assetsDir a 3 w;
          w = (if isDownloadable a then emit [Sleep 100] w else w);
          (results, w) = downloadEach h assetsDir allAssets w
      in (result # results, w))"

text \<open>
  \<open>downloadAllAssets\<close>: the assets of all playlists, flattened in manifest order. Creating
  the assets directory (\<open>ensureDirectoryExists\<close>) is the one step outside \<open>downloadAsset\<close>
  that can throw; \<open>mkdir\<close> is the exception it throws, if any.
\<close>

definition downloadAllAssets ::
  "host \<Rightarrow> string \<Rightarrow> js_exn option \<Rightarrow> ApiResponse \<Rightarrow> world \<Rightarrow> (js_exn + DownloadResult list) \<times> world" where
  "downloadAllAssets h assetsDir mkdir apiResponse w =
     (case mkdir of
        Some e \<Rightarrow> (Inl e, w)
      | None \<Rightarrow>
          (let allAssets = concat (map p_assets (playlists apiResponse));
               (results, w) = downloadEach h assetsDir allAssets w
           in (Inr results, w)))"

subsection \<open>The default export \<open>downloadAssets\<close>\<close>

text \<open>
  What surrounds the downloads during an initialization: whether clearing the assets
  directory fails, the device name (\<open>None\<close> for \<open>null\<close>), what \<open>getData\<close> returns or throws,
  whether creating the assets directory or writing \<open>webview-manifest.json\<close> throws, and
  the milliseconds that have passed when the statistics are taken.
\<close>

record surroundings =
  clearing :: "js_exn option"
  device :: "string option"
  manifest :: "js_exn + ApiResponse"
  mkdir :: "js_exn option"
  manifestWrite :: "js_exn option"
  elapsed :: int

definition downloadAssets ::
  "host \<Rightarrow> surroundings \<Rightarrow> ApiResponse \<Rightarrow> world \<Rightarrow>
     (js_exn + DownloadResult list \<times> PlaylistCycle list) \<times> world" where
  "downloadAssets h env apiResponse w =
     (case downloadAllAssets h ''./assets/main'' (mkdir env) apiResponse w of
        (Inl e, w') \<Rightarrow> (Inl e, w')
      | (Inr results, w') \<Rightarrow>
          (case manifestWrite env of
             Some e \<Rightarrow> (Inl e, w')
           | None \<Rightarrow> (Inr (results, preparePlaylistsForCycling apiResponse results), w')))"

subsection \<open>The initializer (\<open>initialization.ts\<close>)\<close>

record Stats =
  totalAssets :: nat
  successfulDownloads :: nat
  failedDownloads :: nat
  streamsKept :: nat
  totalPlaylists :: nat
  initializationTime :: int

record InitializationResult =
  r_success :: bool
  r_deviceName :: "string option"
  r_apiResponse :: "ApiResponse option"
  r_downloadResults :: "DownloadResult list option"
  r_playlistCycles :: "PlaylistCycle list option"
  r_defaultPlaylist :: "PlaylistCycle option"
  r_error :: "string option"
  r_stats :: "Stats option"

definition failure :: "string \<Rightarrow> InitializationResult" where
  "failure message =
     \<lparr>r_success = False, r_deviceName = None, r_apiResponse = None, r_downloadResults = None,
      r_playlistCycles = None, r_defaultPlaylist = None, r_error = Some message, r_stats = None\<rparr>"

definition prepareFinalResult ::
  "int \<Rightarrow> string option \<Rightarrow> ApiResponse \<Rightarrow> DownloadResult list \<Rightarrow> PlaylistCycle list
     \<Rightarrow> InitializationResult" where
  "prepareFinalResult time_taken deviceName' apiResponse' downloadResults' playlistCycles' =
     \<lparr>r_success = True,
      r_deviceName = (if truthy deviceName' then deviceName' else None),
      r_apiResponse = Some apiResponse',
      r_downloadResults = Some downloadResults',
      r_playlistCycles = Some playlistCycles',
      r_defaultPlaylist = find isDefault playlistCycles',
      r_error = None,
      r_stats = Some
        \<lparr>totalAssets = length downloadResults',
         successfulDownloads = length (filter success downloadResults'),
         failedDownloads = length (filter (\<lambda>r. \<not> success r) downloadResults'),
         streamsKept = length (filter (\<lambda>r. success r \<and> isStreamAsset (asset r)) downloadResults'),
         totalPlaylists = length playlistCycles',
         initializationTime = time_taken\<rparr>\<rparr>"

text \<open>
  \<open>initialize\<close>: the stages in order, inside one \<open>try\<close>. A failure of the manifest fetch or
  of the downloads is re-thrown as an \<open>Error\<close> with a prefixed message; the \<open>catch\<close> turns
  whatever was thrown into a failed result.
\<close>

definition initialize ::
  "bool \<Rightarrow> host \<Rightarrow> surroundings \<Rightarrow> world \<Rightarrow> InitializationResult \<times> world" where
  "initialize clearAssetsOnStart h env w =
     (case (if clearAssetsOnStart then clearing env else None) of
        Some e \<Rightarrow> (failure (messageOr ''Unknown initialization error'' e), w)
      | None \<Rightarrow>
          (case manifest env of
             Inl e \<Rightarrow> (failure (''API fetch failed: '' @ messageOr ''Unknown API error'' e), w)
           | Inr apiResponse' \<Rightarrow>
               (case downloadAssets h env apiResponse' w of
                  (Inl e, w') \<Rightarrow>
                    (failure (''Asset download failed: '' @ messageOr ''Unknown download error'' e), w')
                | (Inr (downloadResults', playlistCycles'), w') \<Rightarrow>
                    (prepareFinalResult (elapsed env) (device env) apiResponse' downloadResults'
                       playlistCycles', w'))))"

text \<open>
  \<open>getDefaultPlaylist\<close>:
  \<^verbatim>\<open>playlistCycles.find((p) => p.isDefault) || playlistCycles[0] || null\<close>
\<close>

definition getDefaultPlaylist :: "PlaylistCycle list \<Rightarrow> PlaylistCycle option" where
  "getDefaultPlaylist playlistCycles' =
     (case find isDefault playlistCycles' of
        Some p \<Rightarrow> Some p
      | None \<Rightarrow> (case playlistCycles' of [] \<Rightarrow> None | first # rest \<Rightarrow> Some first))"

definition validateResult :: "InitializationResult \<Rightarrow> bool" where
  "validateResult result =
     (if \<not> r_success result then False
      else (case r_playlistCycles result of
              None \<Rightarrow> False
            | Some cycles \<Rightarrow>
                if length cycles = 0 then False
                else (case getDefaultPlaylist cycles of
                        None \<Rightarrow> False
                      | Some defaultPlaylist' \<Rightarrow>
                          if length (assets defaultPlaylist') = 0 then False else True)))"

text \<open>
  \<open>initializeDigitalSignage\<close>: the result of \<open>initialize\<close> if it passes validation, the
  validation failure otherwise. \<open>validated\<close> is the part after \<open>initialize\<close> has returned.
\<close>

definition validated :: "InitializationResult \<Rightarrow> InitializationResult" where
  "validated result =
     (if validateResult result then result else failure ''Initialization validation failed'')"

definition initializeDigitalSignage ::
  "bool \<Rightarrow> host \<Rightarrow> surroundings \<Rightarrow> world \<Rightarrow> InitializationResult \<times> world" where
  "initializeDigitalSignage clearAssetsOnStart h env w =
     (let (result, w') = initialize clearAssetsOnStart h env w in (validated result, w'))"

text \<open>
  The selected cycle as the specification words it: the first one flagged default, else
  the first cycle.
\<close>

definition spec_selected :: "PlaylistCycle list \<Rightarrow> PlaylistCycle option" where
  "spec_selected cycles =
     (case filter isDefault cycles of
        d # ds \<Rightarrow> Some d
      | [] \<Rightarrow> (case cycles of [] \<Rightarrow> None | c # cs \<Rightarrow> Some c))"

subsection \<open>Sample manifests\<close>

definition image :: "string \<Rightarrow> string \<Rightarrow> string \<Rightarrow> Asset" where
  "image i order seconds =
     \<lparr>a_id = i, a_name = ''slide'', filepath = ''http://h/slide.png'', filetype = ''image'',
      playing_order = order, time = seconds\<rparr>"

definition downloaded :: "Asset \<Rightarrow> DownloadResult" where
  "downloaded a =
     \<lparr>asset = a, success = True, error = None,
      localPath = Some (''assets/main/'' @ a_id a @ ''_slide.png'')\<rparr>"

definition failed :: "Asset \<Rightarrow> DownloadResult" where
  "failed a =
     \<lparr>asset = a, success = False, error = Some ''HTTP error! status: 404'',
      localPath = None\<rparr>"

definition playlistOf :: "string \<Rightarrow> Asset list \<Rightarrow> Playlist" where
  "playlistOf i as =
     \<lparr>p_id = i, p_name = ''lobby'', starttime = None, endtime = None, startdate = None,
      enddate = None, weekdays = None, is_default = True, p_assets = as\<rparr>"

definition manifestOf :: "Playlist list \<Rightarrow> ApiResponse" where
  "manifestOf ps = \<lparr>is_restarting = False, playlists = ps\<rparr>"

text \<open>Three slides whose second ordering key is not a number.\<close>

definition slidesNaN :: "Asset list" where
  "slidesNaN = [image ''a'' ''2'' ''5'', image ''b'' ''x'' ''5'', image ''c'' ''1'' ''5'']"

text \<open>Three slides, two of them with the same ordering key.\<close>

definition slides :: "Asset list" where
  "slides = [image ''a'' ''2'' ''5'', image ''b'' ''1'' ''10'', image ''c'' ''1'' ''3'']"

text \<open>Three slides whose display times add up beyond the integers that doubles can tell apart.\<close>

definition slidesLong :: "Asset list" where
  "slidesLong =
     [image ''a'' ''1'' ''9007199254740992'', image ''b'' ''2'' ''1'', image ''c'' ''3'' ''1'']"

text \<open>A slide with a negative display time and an ordering key that is no number.\<close>

definition oddSlide :: Asset where
  "oddSlide = image ''a'' ''first'' ''-5''"

subsection \<open>A sample host\<close>

text \<open>
  \<open>path.join\<close> of two strings as the run-time computes it on a POSIX system: the
  non-empty ones are joined by a slash and the result is normalised, that is, empty and
  \<open>.\<close> segments are dropped and a \<open>..\<close> segment takes back the segment before it.
\<close>

fun splitSlash :: "string \<Rightarrow> string list" where
  "splitSlash [] = [] # []"
| "splitSlash (c # cs) =
     (if c = CHR ''/'' then [] # splitSlash cs
      else (case splitSlash cs of [] \<Rightarrow> [c] # [] | s # ss \<Rightarrow> (c # s) # ss))"

text \<open>The segments kept so far are held last first.\<close>

fun normalizeSegments :: "bool \<Rightarrow> string list \<Rightarrow> string list \<Rightarrow> string list" where
  "normalizeSegments allowAboveRoot res [] = rev res"
| "normalizeSegments allowAboveRoot res (segment # segments) =
     (if segment = [] \<or> segment = ''.'' then normalizeSegments allowAboveRoot res segments
      else if segment = ''..''
      then (if res \<noteq> [] \<and> hd res \<noteq> ''..''
            then normalizeSegments allowAboveRoot (tl res) segments
            else if allowAboveRoot then normalizeSegments allowAboveRoot (''..'' # res) segments
            else normalizeSegments allowAboveRoot res segments)
      else normalizeSegments allowAboveRoot (segment # res) segments)"

fun joinSlash :: "string list \<Rightarrow> string" where
  "joinSlash [] = []"
| "joinSlash [s] = s"
| "joinSlash (s # ss) = s @ ''/'' @ joinSlash ss"

definition posix_normalize :: "string \<Rightarrow> string" where
  "posix_normalize path' =
     (if path' = [] then ''.''
      else (let isAbsolute = (hd path' = CHR ''/'');
                trailingSeparator = (last path' = CHR ''/'');
                p = joinSlash (normalizeSegments (\<not> isAbsolute) [] (splitSlash path'))
            in if p = [] then (if isAbsolute then ''/'' else if trailingSeparator then ''./'' else ''.'')
               else (let p = (if trailingSeparator then p @ ''/'' else p)
                     in if isAbsolute then ''/'' @ p else p)))"

definition posix_join :: "string \<Rightarrow> string \<Rightarrow> string" where
  "posix_join dir name' =
     (if dir = [] \<and> name' = [] then ''.''
      else if dir = [] then posix_normalize name'
      else if name' = [] then posix_normalize dir
      else posix_normalize (dir @ ''/'' @ name'))"

text \<open>
  The path of an \<open>http\<close> or \<open>https\<close> URL: what follows the host, up to a \<open>?\<close> or \<open>#\<close>, and
  \<open>/\<close> if that is empty. This sample takes every such URL with a non-empty host as valid
  and every string of another form as invalid; it neither escapes characters nor resolves
  dot segments, and the examples have none to escape or resolve.
\<close>

definition urlPath :: "string \<Rightarrow> string option" where
  "urlPath afterScheme =
     (let host' = takeWhile (\<lambda>c. c \<notin> set ''/?#'') afterScheme;
          p = takeWhile (\<lambda>c. c \<notin> set ''?#'') (dropWhile (\<lambda>c. c \<notin> set ''/?#'') afterScheme)
      in if host' = [] then None else Some (if p = [] then ''/'' else p))"

definition plainHost :: host where
  "plainHost =
     \<lparr>URL_pathname = (\<lambda>s. if startsWith s ''http://'' then urlPath (drop 7 s)
                          else if startsWith s ''https://'' then urlPath (drop 8 s)
                          else None),
      path_join = posix_join\<rparr>"

subsection \<open>Sample worlds\<close>

text \<open>Worlds in which every request is answered with one status, and the disk works.\<close>

definition answering :: "nat \<Rightarrow> world" where
  "answering status =
     \<lparr>net = (\<lambda>k. \<lparr>fetched = Inr status, body = None, written = None\<rparr>), tick = 0, trace = []\<rparr>"

text \<open>A world without network: every \<open>fetch\<close> rejects.\<close>

definition offline :: world where
  "offline =
     \<lparr>net = (\<lambda>k. \<lparr>fetched = Inl (Error ''Network request failed''), body = None, written = None\<rparr>),
      tick = 0, trace = []\<rparr>"

text \<open>A live stream that announces itself by its extension only, and one by its file type only.\<close>

definition liveVideo :: Asset where
  "liveVideo =
     \<lparr>a_id = ''7'', a_name = ''news'', filepath = ''http://h/live/news.m3u8'', filetype = ''video'',
      playing_order = ''1'', time = ''30''\<rparr>"

definition liveFeed :: Asset where
  "liveFeed =
     \<lparr>a_id = ''8'', a_name = ''feed'', filepath = ''http://h/live/feed'', filetype = ''stream'',
      playing_order = ''2'', time = ''30''\<rparr>"

text \<open>Surroundings in which nothing but the downloads can fail, for a given manifest.\<close>

definition calm :: "ApiResponse \<Rightarrow> surroundings" where
  "calm m =
     \<lparr>clearing = None, device = Some ''lobby-tv'', manifest = Inr m, mkdir = None,
      manifestWrite = None, elapsed = 1200\<rparr>"

text \<open>A manifest that lists the slide with identifier \<open>a\<close> in two playlists.\<close>

definition sharedSlide :: ApiResponse where
  "sharedSlide =
     manifestOf [playlistOf ''p'' [image ''a'' ''1'' ''5'', image ''b'' ''2'' ''5''],
                 playlistOf ''q'' [image ''a'' ''1'' ''5'']]"

section \<open>Properties\<close>

subsection \<open>Strings\<close>

lemma includes_str_sublist: "includes_str s sub = sublist sub s"
  by (induction s) (auto simp: sublist_Cons_right)

lemma includes_str_iff: "includes_str s sub \<longleftrightarrow> (\<exists>pre post. s = pre @ sub @ post)"
  by (simp add: includes_str_sublist sublist_def)

lemma endsWith_includes: "endsWith s sub \<Longrightarrow> includes_str s sub"
  unfolding endsWith_def includes_str_iff suffix_def by (metis append_Nil2)

lemma isDownloadable_iff: "isDownloadable a = (\<not> isStreamAsset a)"
  by (simp add: isDownloadable_def isStreamAsset_def)

subsection \<open>Stream classification\<close>

text \<open>
  C2 (as stated, refuted). The claim says the classification is false whenever the file
  type is not \<open>stream\<close> and the source location does not end with \<open>.m3u8\<close>. The code tests
  containment: a video whose URL carries a query string after \<open>.m3u8\<close> is classified as a
  stream although its location does not end with the extension.
\<close>

theorem C2_counterexample:
  "isStreamAsset \<lparr>a_id = ''1'', a_name = ''live'', filepath = ''http://h/a.m3u8?t=1'',
       filetype = ''video'', playing_order = ''1'', time = ''5''\<rparr>
   \<and> \<not> spec_isStream \<lparr>a_id = ''1'', a_name = ''live'', filepath = ''http://h/a.m3u8?t=1'',
       filetype = ''video'', playing_order = ''1'', time = ''5''\<rparr>"
  by (simp add: isStreamAsset_def spec_isStream_def endsWith_def suffix_def)

text \<open>
  C2 (amended). An asset is classified as a stream exactly when its file type is \<open>stream\<close>
  or its source location contains \<open>.m3u8\<close> anywhere; either condition alone suffices, and
  the downloadable assets are exactly the others. Ending with \<open>.m3u8\<close> is one way of
  containing it.
\<close>

theorem C2_isStream_contains:
  "(isStreamAsset a \<longleftrightarrow>
      filetype a = ''stream'' \<or> (\<exists>pre post. filepath a = pre @ ''.m3u8'' @ post))
   \<and> (isDownloadable a \<longleftrightarrow> \<not> isStreamAsset a)
   \<and> (spec_isStream a \<longrightarrow> isStreamAsset a)"
  unfolding isDownloadable_iff
  by (auto simp: isStreamAsset_def spec_isStream_def includes_str_iff dest: endsWith_includes)

theorem C2_isStream_contains_witness:
  "spec_isStream \<lparr>a_id = ''1'', a_name = ''live'', filepath = ''a.m3u8'',
       filetype = ''video'', playing_order = ''1'', time = ''5''\<rparr>
   \<and> isStreamAsset \<lparr>a_id = ''1'', a_name = ''live'', filepath = ''a.m3u8'',
       filetype = ''video'', playing_order = ''1'', time = ''5''\<rparr>"
proof -
  let ?a = "\<lparr>a_id = ''1'', a_name = ''live'', filepath = ''a.m3u8'',
       filetype = ''video'', playing_order = ''1'', time = ''5''\<rparr>"
  have h: "spec_isStream ?a"
    by (simp add: spec_isStream_def endsWith_def suffix_def)
  with C2_isStream_contains [of ?a] show ?thesis by blast
qed

subsection \<open>The active-date window\<close>

lemma isPlaylistActive_end_exclusive:
  "e \<noteq> [] \<Longrightarrow> Date_parse e = Num now \<Longrightarrow> \<not> isPlaylistActive Date_parse now s (Some e)"
  by (simp add: isPlaylistActive_def)

lemma AssetCycler_end_inclusive:
  "Date_parse e = Num now \<Longrightarrow> \<not> truthy (startDate c) \<Longrightarrow> endDate c = Some e \<Longrightarrow>
   AssetCycler_isPlaylistActive Date_parse now c"
  by (cases "startDate c") (simp_all add: AssetCycler_isPlaylistActive_def js_gt_def)

lemma isPlaylistActive_example:
  "\<not> isPlaylistActive Date_parse_2025 1735689600000 None (endDate newYearCycle)"
  by (simp add: isPlaylistActive_def Date_parse_2025_def newYearCycle_def)

text \<open>
  C1 (the code against the claim). A cycle that ends at the first millisecond of 2025,
  checked at exactly that millisecond: the cycle scheduler's own check tests
  \<open>now > endDate\<close> and still reports the cycle active, where the claim (and the standalone
  helper, which tests \<open>endDate \<le> now\<close>) says it has ended.
\<close>

theorem C1_AssetCycler_active_at_end:
  "AssetCycler_isPlaylistActive Date_parse_2025 1735689600000 newYearCycle = True"
  by (simp add: AssetCycler_isPlaylistActive_def Date_parse_2025_def newYearCycle_def js_gt_def)

subsection \<open>Doubles\<close>

declare bitLength.simps [simp del]

lemma bitLength_le: "n < 2 ^ k \<Longrightarrow> bitLength n \<le> k"
proof (induction k arbitrary: n)
  case 0
  then show ?case by (simp add: bitLength.simps)
next
  case (Suc k)
  show ?case
  proof (cases "n \<le> 0")
    case True
    then show ?thesis by (simp add: bitLength.simps)
  next
    case False
    from Suc.prems have "n div 2 < 2 ^ k" by simp
    from Suc.IH [OF this] False show ?thesis by (subst bitLength.simps) simp
  qed
qed

lemma bitLength_lower: "0 < n \<Longrightarrow> 2 ^ (bitLength n - 1) \<le> n"
proof (induction n rule: bitLength.induct)
  case (1 n)
  have step: "bitLength n = Suc (bitLength (n div 2))"
    using "1.prems" by (subst bitLength.simps) simp
  show ?case
  proof (cases "n div 2 \<le> 0")
    case True
    then have "bitLength (n div 2) = 0" by (simp add: bitLength.simps)
    with step "1.prems" show ?thesis by simp
  next
    case False
    then have pos: "0 < n div 2" by simp
    have "\<not> n \<le> 0" using "1.prems" by simp
    from "1.IH" [OF this pos] have "2 ^ (bitLength (n div 2) - 1) \<le> n div 2" .
    moreover have "bitLength (n div 2) \<noteq> 0"
      using pos by (subst bitLength.simps) simp
    ultimately have "2 ^ (bitLength n - 1) \<le> 2 * (n div 2)"
      unfolding step by (cases "bitLength (n div 2)") simp_all
    then show ?thesis by linarith
  qed
qed

lemma toDouble_safe: "\<bar>n\<bar> < 2 ^ 53 \<Longrightarrow> toDouble n = Num n"
  using bitLength_le [of "\<bar>n\<bar>" 53] by (simp add: toDouble_def Let_def)

lemma toDouble_sign:
  "js_lt (Num 0) (toDouble n) \<longleftrightarrow> 0 < n" "js_lt (toDouble n) (Num 0) \<longleftrightarrow> n < 0"
proof -
  let ?a = "\<bar>n\<bar>"
  let ?e = "bitLength ?a - 53"
  let ?q = "?a div 2 ^ ?e"
  let ?m = "if ?a mod 2 ^ ?e < 2 ^ (?e - 1) \<or> (?a mod 2 ^ ?e = 2 ^ (?e - 1) \<and> even ?q) then ?q else ?q + 1"
  have both: "(js_lt (Num 0) (toDouble n) \<longleftrightarrow> 0 < n) \<and> (js_lt (toDouble n) (Num 0) \<longleftrightarrow> n < 0)"
  proof (cases "bitLength ?a \<le> 53")
    case True
    then show ?thesis by (simp add: toDouble_def Let_def)
  next
    case False
    then have a0: "0 < ?a" by (auto simp: bitLength.simps)
    then have n0: "n \<noteq> 0" by auto
    have "(2::int) ^ ?e \<le> 2 ^ (bitLength ?a - 1)"
      by (rule power_increasing) simp_all
    also have "\<dots> \<le> ?a" by (rule bitLength_lower [OF a0])
    finally have "2 ^ ?e \<le> ?a" .
    then have "0 < ?q"
      using pos_imp_zdiv_pos_iff [of "2 ^ ?e" ?a] by simp
    then have "1 \<le> ?q" by simp
    then have m: "0 < ?m" by auto
    then have pos: "0 < ?m * 2 ^ ?e" by simp
    show ?thesis
    proof (cases "bitLength ?m + ?e > 1024")
      case True
      have "toDouble n = (if n < 0 then NegInfinity else PosInfinity)"
        unfolding toDouble_def Let_def
        by (subst if_not_P [OF False], subst if_P [OF True], rule refl)
      with n0 show ?thesis by simp
    next
      case big: False
      have eq: "toDouble n = Num (sgn n * (?m * 2 ^ ?e))"
        unfolding toDouble_def Let_def
        by (subst if_not_P [OF False], subst if_not_P [OF big], rule refl)
      show ?thesis
      proof (cases "n < 0")
        case True
        then have "sgn n * (?m * 2 ^ ?e) = - (?m * 2 ^ ?e)" by simp
        with pos True show ?thesis unfolding eq by simp
      next
        case False
        with n0 have "sgn n * (?m * 2 ^ ?e) = ?m * 2 ^ ?e" by simp
        with pos False n0 show ?thesis unfolding eq by simp
      qed
    qed
  qed
  from both show "js_lt (Num 0) (toDouble n) \<longleftrightarrow> 0 < n" "js_lt (toDouble n) (Num 0) \<longleftrightarrow> n < 0"
    by blast+
qed

lemma negative_toDouble: "negative (toDouble n) \<longleftrightarrow> n < 0"
  by (simp add: negative_def toDouble_sign)

subsection \<open>Sorting\<close>

text \<open>Whatever the comparator, the result is a permutation.\<close>

declare binarySearch.simps [simp del]

lemma mset_take_drop: "mset (take p ys) + mset (drop p ys) = mset ys"
  by (metis append_take_drop_id mset_append)

lemma mset_binaryInsert: "mset (binaryInsert cmp ys x) = add_mset x (mset ys)"
  by (simp add: binaryInsert_def Let_def mset_take_drop)

lemma mset_foldl_binaryInsert: "mset (foldl (binaryInsert cmp) run rest) = mset run + mset rest"
  by (induction rest arbitrary: run) (simp_all add: mset_binaryInsert)

lemma mset_countAndMakeRun:
  "mset (fst (countAndMakeRun cmp xs)) + mset (snd (countAndMakeRun cmp xs)) = mset xs"
proof -
  have "mset (take n xs) + mset (drop n xs) = mset xs" for n
    by (rule mset_take_drop)
  then show ?thesis
    by (auto simp: countAndMakeRun_def Let_def split: list.splits simp del: take_Suc_Cons drop_Suc_Cons)
qed

lemma mset_array_sort: "mset (array_sort cmp xs) = mset xs"
  using mset_countAndMakeRun [of cmp xs]
  by (simp add: array_sort_def split_beta mset_foldl_binaryInsert)

text \<open>Under a consistent comparator the result is the stable sort by key.\<close>

lemma run_ascending:
  fixes f :: "'a \<Rightarrow> 'b::linorder"
  assumes "\<forall>x\<in>set (previous # rest). \<forall>y\<in>set (previous # rest). negative (cmp x y) = (f x < f y)"
  shows "sorted (map f (previous # take (runLength cmp False previous rest) rest))"
  using assms
proof (induction rest arbitrary: previous)
  case Nil
  then show ?case by simp
next
  case (Cons current rest)
  show ?case
  proof (cases "negative (cmp current previous)")
    case True
    then show ?thesis by simp
  next
    case False
    with Cons.prems have le: "f previous \<le> f current" by auto
    have "sorted (map f (current # take (runLength cmp False current rest) rest))"
      using Cons.prems by (intro Cons.IH) auto
    with le False show ?thesis by auto
  qed
qed

lemma run_descending:
  fixes f :: "'a \<Rightarrow> 'b::linorder"
  assumes "\<forall>x\<in>set (previous # rest). \<forall>y\<in>set (previous # rest). negative (cmp x y) = (f x < f y)"
  shows "sorted_wrt (\<lambda>a b. f b < f a) (previous # take (runLength cmp True previous rest) rest)"
  using assms
proof (induction rest arbitrary: previous)
  case Nil
  then show ?case by simp
next
  case (Cons current rest)
  show ?case
  proof (cases "negative (cmp current previous)")
    case False
    then show ?thesis by simp
  next
    case True
    with Cons.prems have lt: "f current < f previous" by auto
    have "sorted_wrt (\<lambda>a b. f b < f a) (current # take (runLength cmp True current rest) rest)"
      using Cons.prems by (intro Cons.IH) auto
    with lt True show ?thesis by (auto intro: less_trans)
  qed
qed

lemma filter_distinct_key:
  "distinct (map f xs) \<Longrightarrow> k \<in> set xs \<Longrightarrow> filter (\<lambda>x. f k = f x) xs = [k]"
proof (induction xs)
  case Nil
  then show ?case by simp
next
  case (Cons x xs)
  show ?case
  proof (cases "k = x")
    case True
    have "\<forall>y\<in>set xs. f x \<noteq> f y"
      using Cons.prems(1) by auto
    then have "filter (\<lambda>y. f x = f y) xs = []"
      by (simp add: filter_empty_conv)
    with True show ?thesis by simp
  next
    case False
    with Cons.prems have k: "k \<in> set xs" by simp
    have "f x \<notin> f ` set xs" using Cons.prems(1) by simp
    with k have "f k \<noteq> f x" by (metis imageI)
    then have "f k \<noteq> f x" .
    moreover have "filter (\<lambda>x. f k = f x) xs = [k]"
      using Cons.IH k Cons.prems(1) by simp
    ultimately show ?thesis by simp
  qed
qed

lemma sort_key_strictly_descending:
  fixes f :: "'a \<Rightarrow> 'b::linorder"
  assumes "sorted_wrt (\<lambda>a b. f b < f a) xs"
  shows "sort_key f xs = rev xs"
proof (rule properties_for_sort_key)
  show "mset (rev xs) = mset xs" by simp
  have asc: "sorted_wrt (\<lambda>a b. f a < f b) (rev xs)"
    using assms by (simp add: sorted_wrt_rev)
  then have "sorted_wrt (<) (map f (rev xs))"
    by (simp add: sorted_wrt_map)
  then show "sorted (map f (rev xs))"
    by (rule strict_sorted_imp_sorted)
  have d: "distinct (map f xs)"
    using assms by (induction xs) auto
  show "filter (\<lambda>x. f k = f x) (rev xs) = filter (\<lambda>x. f k = f x) xs" if "k \<in> set (rev xs)" for k
  proof -
    from that have k: "k \<in> set xs" by simp
    have "distinct (map f (rev xs))" using d by (simp add: rev_map [symmetric])
    from filter_distinct_key [OF this that] filter_distinct_key [OF d k] show ?thesis by simp
  qed
qed

lemma binarySearch_spec:
  fixes f :: "'a \<Rightarrow> 'b::linorder"
  shows "sorted (map f ys) \<Longrightarrow> \<forall>y\<in>set ys. negative (cmp x y) = (f x < f y) \<Longrightarrow>
   left \<le> right \<Longrightarrow> right \<le> length ys \<Longrightarrow>
   \<forall>i<left. f (ys ! i) \<le> f x \<Longrightarrow> \<forall>i. right \<le> i \<and> i < length ys \<longrightarrow> f x < f (ys ! i) \<Longrightarrow>
     binarySearch cmp x ys left right \<le> length ys
     \<and> (\<forall>i<binarySearch cmp x ys left right. f (ys ! i) \<le> f x)
     \<and> (\<forall>i. binarySearch cmp x ys left right \<le> i \<and> i < length ys \<longrightarrow> f x < f (ys ! i))"
proof (induction cmp x ys left right rule: binarySearch.induct)
  case (1 cmp pivot ys left right)
  show ?case
  proof (cases "left < right")
    case False
    with "1.prems" have "left = right" by simp
    with "1.prems" False show ?thesis by (subst (1 2 3) binarySearch.simps) simp
  next
    case True
    let ?mid = "left + (right - left) div 2"
    have mid: "left \<le> ?mid" "?mid < right" "?mid < length ys"
      using True "1.prems"(4) by auto
    have cons: "negative (cmp pivot (ys ! ?mid)) = (f pivot < f (ys ! ?mid))"
      using "1.prems"(2) mid(3) by simp
    have mono: "f (ys ! i) \<le> f (ys ! j)" if "i \<le> j" "j < length ys" for i j
      using sorted_nth_mono [OF "1.prems"(1), of i j] that by simp
    show ?thesis
    proof (cases "negative (cmp pivot (ys ! ?mid))")
      case neg: True
      have step: "binarySearch cmp pivot ys left right = binarySearch cmp pivot ys left ?mid"
        using True neg by (subst binarySearch.simps) (simp add: Let_def)
      have upper: "\<forall>i. ?mid \<le> i \<and> i < length ys \<longrightarrow> f pivot < f (ys ! i)"
      proof (intro allI impI)
        fix i assume i: "?mid \<le> i \<and> i < length ys"
        from neg cons have "f pivot < f (ys ! ?mid)" by simp
        also have "\<dots> \<le> f (ys ! i)" using i by (intro mono) simp_all
        finally show "f pivot < f (ys ! i)" .
      qed
      have le: "?mid \<le> length ys" using mid by simp
      from "1.IH"(1) [OF True refl neg "1.prems"(1,2) mid(1) le "1.prems"(5) upper]
      show ?thesis unfolding step .
    next
      case nonneg: False
      have step: "binarySearch cmp pivot ys left right = binarySearch cmp pivot ys (?mid + 1) right"
        using True nonneg by (subst binarySearch.simps) (simp add: Let_def)
      have lower: "\<forall>i<?mid + 1. f (ys ! i) \<le> f pivot"
      proof (intro allI impI)
        fix i assume i: "i < ?mid + 1"
        then have "f (ys ! i) \<le> f (ys ! ?mid)" using mid by (intro mono) simp_all
        also from nonneg cons have "\<dots> \<le> f pivot" by simp
        finally show "f (ys ! i) \<le> f pivot" .
      qed
      have le: "?mid + 1 \<le> right" using mid by simp
      from "1.IH"(2) [OF True refl nonneg "1.prems"(1,2) le "1.prems"(4) lower "1.prems"(6)]
      show ?thesis unfolding step .
    qed
  qed
qed

lemma binaryInsert_sorted:
  fixes f :: "'a \<Rightarrow> 'b::linorder"
  assumes ys: "ys = sort_key f pre"
    and cons: "\<forall>y\<in>set pre. negative (cmp x y) = (f x < f y)"
  shows "binaryInsert cmp ys x = sort_key f (pre @ [x])"
proof -
  let ?p = "binarySearch cmp x ys 0 (length ys)"
  have sorted: "sorted (map f ys)" by (simp add: ys)
  have cons': "\<forall>y\<in>set ys. negative (cmp x y) = (f x < f y)"
    using cons by (simp add: ys)
  have "?p \<le> length ys \<and> (\<forall>i<?p. f (ys ! i) \<le> f x)
      \<and> (\<forall>i. ?p \<le> i \<and> i < length ys \<longrightarrow> f x < f (ys ! i))"
    using sorted cons' by (intro binarySearch_spec) auto
  then have p: "?p \<le> length ys"
    and low: "\<forall>i<?p. f (ys ! i) \<le> f x"
    and high: "\<forall>i. ?p \<le> i \<and> i < length ys \<longrightarrow> f x < f (ys ! i)"
    by blast+
  have taken: "f y \<le> f x" if "y \<in> set (take ?p ys)" for y
  proof -
    from that obtain i where "i < ?p" "i < length ys" "y = ys ! i"
      by (auto simp: in_set_conv_nth)
    with low show ?thesis by simp
  qed
  have dropped: "f x < f y" if "y \<in> set (drop ?p ys)" for y
  proof -
    from that obtain i where "i < length ys - ?p" "y = ys ! (?p + i)"
      by (auto simp: in_set_conv_nth)
    with high [rule_format, of "?p + i"] show ?thesis by simp
  qed
  have split: "ys = take ?p ys @ drop ?p ys" by simp
  have eq: "binaryInsert cmp ys x = take ?p ys @ x # drop ?p ys"
    by (simp add: binaryInsert_def Let_def)
  show ?thesis
    unfolding eq
  proof (rule sym, rule properties_for_sort_key)
    show "mset (take ?p ys @ x # drop ?p ys) = mset (pre @ [x])"
      using mset_take_drop [of ?p ys] by (simp add: ys)
    have "sorted (map f (take ?p ys @ drop ?p ys))"
      using sorted by simp
    then have "sorted (map f (take ?p ys))" "sorted (map f (drop ?p ys))"
      "\<forall>a\<in>set (take ?p ys). \<forall>b\<in>set (drop ?p ys). f a \<le> f b"
      by (auto simp: sorted_append simp del: append_take_drop_id)
    then show "sorted (map f (take ?p ys @ x # drop ?p ys))"
      using taken dropped by (auto simp: sorted_append less_imp_le)
    show "filter (\<lambda>y. f k = f y) (take ?p ys @ x # drop ?p ys) = filter (\<lambda>y. f k = f y) (pre @ [x])"
      for k
    proof -
      have stable: "filter (\<lambda>y. f k = f y) ys = filter (\<lambda>y. f k = f y) pre"
        using sort_key_stable [of f "f k" pre] by (simp add: ys eq_commute)
      have parts: "filter (\<lambda>y. f k = f y) ys =
          filter (\<lambda>y. f k = f y) (take ?p ys) @ filter (\<lambda>y. f k = f y) (drop ?p ys)"
        by (subst split) (simp only: filter_append)
      show ?thesis
      proof (cases "f k = f x")
        case True
        have "f k \<noteq> f y" if "y \<in> set (drop ?p ys)" for y
          using dropped [OF that] True by simp
        then have "filter (\<lambda>y. f k = f y) (drop ?p ys) = []"
          by (simp add: filter_empty_conv)
        with parts stable True show ?thesis by simp
      next
        case False
        with parts stable show ?thesis by simp
      qed
    qed
  qed
qed

lemma foldl_binaryInsert_sorted:
  fixes f :: "'a \<Rightarrow> 'b::linorder"
  assumes "\<forall>x\<in>set (pre @ rest). \<forall>y\<in>set (pre @ rest). negative (cmp x y) = (f x < f y)"
  shows "foldl (binaryInsert cmp) (sort_key f pre) rest = sort_key f (pre @ rest)"
  using assms
proof (induction rest arbitrary: pre)
  case Nil
  then show ?case by simp
next
  case (Cons x rest)
  have "binaryInsert cmp (sort_key f pre) x = sort_key f (pre @ [x])"
    using Cons.prems by (intro binaryInsert_sorted) auto
  moreover have "foldl (binaryInsert cmp) (sort_key f (pre @ [x])) rest = sort_key f ((pre @ [x]) @ rest)"
    using Cons.prems by (intro Cons.IH) auto
  ultimately show ?case by simp
qed

lemma countAndMakeRun_sorted:
  fixes f :: "'a \<Rightarrow> 'b::linorder"
  assumes "\<forall>x\<in>set xs. \<forall>y\<in>set xs. negative (cmp x y) = (f x < f y)"
  shows "\<exists>n. fst (countAndMakeRun cmp xs) = sort_key f (take n xs)
            \<and> snd (countAndMakeRun cmp xs) = drop n xs"
proof (cases xs)
  case Nil
  then show ?thesis by (simp add: countAndMakeRun_def)
next
  case (Cons low tl)
  show ?thesis
  proof (cases tl)
    case Nil
    with Cons have "fst (countAndMakeRun cmp xs) = sort_key f (take 1 xs)
        \<and> snd (countAndMakeRun cmp xs) = drop 1 xs"
      by (simp add: countAndMakeRun_def)
    then show ?thesis ..
  next
    case (Cons high rest)
    with \<open>xs = low # tl\<close> have xs: "xs = low # high # rest" by simp
    let ?d = "negative (cmp high low)"
    let ?n = "2 + runLength cmp ?d high rest"
    have take: "take ?n xs = low # high # take (runLength cmp ?d high rest) rest"
      by (simp add: xs)
    have cons: "\<forall>x\<in>set (high # rest). \<forall>y\<in>set (high # rest). negative (cmp x y) = (f x < f y)"
      using assms by (simp add: xs)
    have lowhigh: "?d = (f high < f low)"
      using assms by (simp add: xs)
    have run: "fst (countAndMakeRun cmp xs) = (if ?d then rev (take ?n xs) else take ?n xs)"
      and rest: "snd (countAndMakeRun cmp xs) = drop ?n xs"
      by (simp_all add: countAndMakeRun_def xs Let_def del: take_Suc_Cons drop_Suc_Cons)
    have "fst (countAndMakeRun cmp xs) = sort_key f (take ?n xs)"
    proof (cases ?d)
      case True
      from run_descending [OF cons] True
      have "sorted_wrt (\<lambda>a b. f b < f a) (high # take (runLength cmp ?d high rest) rest)"
        by simp
      with True lowhigh have "sorted_wrt (\<lambda>a b. f b < f a) (take ?n xs)"
        unfolding take by (auto intro: less_trans)
      from sort_key_strictly_descending [OF this] run True show ?thesis by simp
    next
      case False
      from run_ascending [OF cons] False
      have "sorted (map f (high # take (runLength cmp ?d high rest) rest))"
        by simp
      with False lowhigh have "sorted (map f (take ?n xs))"
        unfolding take by auto
      from sort_key_id_if_sorted [OF this] run False show ?thesis by simp
    qed
    with rest show ?thesis by blast
  qed
qed

lemma array_sort_consistent:
  fixes f :: "'a \<Rightarrow> 'b::linorder"
  assumes "\<forall>x\<in>set xs. \<forall>y\<in>set xs. negative (cmp x y) = (f x < f y)"
  shows "array_sort cmp xs = sort_key f xs"
proof -
  from countAndMakeRun_sorted [OF assms] obtain n where
    run: "fst (countAndMakeRun cmp xs) = sort_key f (take n xs)"
    and rest: "snd (countAndMakeRun cmp xs) = drop n xs"
    by blast
  have "\<forall>x\<in>set (take n xs @ drop n xs). \<forall>y\<in>set (take n xs @ drop n xs).
      negative (cmp x y) = (f x < f y)"
    using assms by simp
  from foldl_binaryInsert_sorted [OF this] show ?thesis
    by (simp add: array_sort_def split_beta run rest)
qed

lemma set_array_sort: "set (array_sort cmp xs) = set xs"
  by (metis mset_array_sort set_mset_mset)

lemma length_array_sort: "length (array_sort cmp xs) = length xs"
  by (metis mset_array_sort size_mset)

lemma array_sort_Nil_iff: "array_sort cmp xs = [] \<longleftrightarrow> xs = []"
  using length_array_sort [of cmp xs] by (metis length_0_conv)

text \<open>Integer ordering keys make the comparator consistent.\<close>

lemma negative_byPlayingOrder:
  "w_playing_order x = Num i \<Longrightarrow> w_playing_order y = Num j \<Longrightarrow>
   negative (byPlayingOrder x y) \<longleftrightarrow> orderKey x < orderKey y"
  by (simp add: byPlayingOrder_def js_sub_def negative_toDouble orderKey_def)

lemma array_sort_sort_key:
  assumes "\<forall>w\<in>set ws. \<exists>k. w_playing_order w = Num k"
  shows "array_sort byPlayingOrder ws = sort_key orderKey ws"
proof (rule array_sort_consistent)
  show "\<forall>x\<in>set ws. \<forall>y\<in>set ws. negative (byPlayingOrder x y) = (orderKey x < orderKey y)"
    using assms by (metis negative_byPlayingOrder)
qed

lemma js_le_keys:
  "w_playing_order a = Num i \<Longrightarrow> w_playing_order b = Num j \<Longrightarrow>
   js_le (w_playing_order a) (w_playing_order b) \<longleftrightarrow> orderKey a \<le> orderKey b"
  by (simp add: orderKey_def)

lemma sorted_wrt_js_le:
  "\<forall>w\<in>set ws. \<exists>k. w_playing_order w = Num k \<Longrightarrow>
   sorted_wrt (\<lambda>a b. js_le (w_playing_order a) (w_playing_order b)) ws
     \<longleftrightarrow> sorted (map orderKey ws)"
proof (induction ws)
  case Nil
  then show ?case by simp
next
  case (Cons a ws)
  have "js_le (w_playing_order a) (w_playing_order x) \<longleftrightarrow> orderKey a \<le> orderKey x"
    if "x \<in> set ws" for x
    using Cons.prems that by (metis js_le_keys list.set_intros)
  with Cons show ?case by simp
qed

lemma key_filter_orderKey:
  assumes "\<forall>w\<in>set ws. \<exists>k. w_playing_order w = Num k"
  shows "filter (\<lambda>w. w_playing_order w = Num k) ws = filter (\<lambda>w. orderKey w = k) ws"
proof (rule filter_cong [OF refl])
  fix w assume "w \<in> set ws"
  with assms obtain j where "w_playing_order w = Num j" by blast
  then show "(w_playing_order w = Num k) = (orderKey w = k)"
    by (simp add: orderKey_def)
qed

subsection \<open>Sums of display times\<close>

lemma foldl_js_add_NaN: "foldl (\<lambda>sum w. js_add sum (displayTime w)) NaN ws = NaN"
  by (induction ws) auto

lemma js_add_NaN_right: "js_add a NaN = NaN"
  by (cases a) simp_all

lemma foldl_js_add_has_NaN:
  "\<exists>w\<in>set ws. displayTime w = NaN \<Longrightarrow> foldl (\<lambda>sum w. js_add sum (displayTime w)) a ws = NaN"
proof (induction ws arbitrary: a)
  case Nil
  then show ?case by simp
next
  case (Cons w ws)
  show ?case
  proof (cases "displayTime w = NaN")
    case True
    then show ?thesis by (simp add: js_add_NaN_right foldl_js_add_NaN)
  next
    case False
    with Cons.prems have "\<exists>w\<in>set ws. displayTime w = NaN" by simp
    from Cons.IH [OF this] show ?thesis by simp
  qed
qed

lemma foldl_js_add_exact:
  assumes "\<forall>w\<in>set ws. \<exists>d. displayTime w = Num d"
    and "\<bar>n\<bar> + (\<Sum>w\<leftarrow>ws. \<bar>the_int (displayTime w)\<bar>) < 2 ^ 53"
  shows "foldl (\<lambda>sum w. js_add sum (displayTime w)) (Num n) ws =
           Num (n + (\<Sum>w\<leftarrow>ws. the_int (displayTime w)))"
  using assms
proof (induction ws arbitrary: n)
  case Nil
  then show ?case by simp
next
  case (Cons w ws)
  from Cons.prems(1) obtain d where d: "displayTime w = Num d" by auto
  have rest: "0 \<le> (\<Sum>w\<leftarrow>ws. \<bar>the_int (displayTime w)\<bar>)"
    by (rule sum_list_nonneg) auto
  from Cons.prems(2) d rest have small: "\<bar>n + d\<bar> < 2 ^ 53" by simp
  have "\<bar>n + d\<bar> + (\<Sum>w\<leftarrow>ws. \<bar>the_int (displayTime w)\<bar>) < 2 ^ 53"
    using Cons.prems(2) d by simp
  from Cons.IH [OF _ this] Cons.prems(1) show ?case
    by (simp add: d toDouble_safe [OF small] add.assoc)
qed

lemma sumDisplayTime_exact:
  assumes "\<forall>w\<in>set ws. \<exists>d. displayTime w = Num d"
    and "(\<Sum>w\<leftarrow>ws. \<bar>the_int (displayTime w)\<bar>) < 2 ^ 53"
  shows "sumDisplayTime ws = Num (\<Sum>w\<leftarrow>ws. the_int (displayTime w))"
  unfolding sumDisplayTime_def using foldl_js_add_exact [OF assms(1), of 0] assms(2) by simp

lemma sumDisplayTime_NaN:
  "\<exists>w\<in>set ws. displayTime w = NaN \<Longrightarrow> sumDisplayTime ws = NaN"
  unfolding sumDisplayTime_def by (rule foldl_js_add_has_NaN)

subsection \<open>\<open>parseInt\<close> on decimal strings\<close>

lemma isDigit_not_space: "isDigit c \<Longrightarrow> \<not> isWhiteSpace c"
  by (auto simp: isDigit_def isWhiteSpace_def)

lemma isDigit_not_sign: "isDigit c \<Longrightarrow> c \<noteq> CHR ''-'' \<and> c \<noteq> CHR ''+''"
  by (auto simp: isDigit_def)

lemma digitValue_nonneg: "isDigit c \<Longrightarrow> 0 \<le> digitValue c"
  by (auto simp: isDigit_def digitValue_def)

lemma foldl_digits_nonneg:
  "list_all isDigit ds \<Longrightarrow> 0 \<le> acc \<Longrightarrow> 0 \<le> foldl (\<lambda>acc c. 10 * acc + digitValue c) acc ds"
proof (induction ds arbitrary: acc)
  case Nil
  then show ?case by simp
next
  case (Cons d ds)
  then have "0 \<le> 10 * acc + digitValue d"
    using digitValue_nonneg [of d] by simp
  with Cons show ?case by simp
qed

lemma foldl_digits_less:
  "list_all isDigit ds \<Longrightarrow> 0 \<le> acc \<Longrightarrow>
   foldl (\<lambda>acc c. 10 * acc + digitValue c) acc ds < (acc + 1) * 10 ^ length ds"
proof (induction ds arbitrary: acc)
  case Nil
  then show ?case by simp
next
  case (Cons d ds)
  then have d: "0 \<le> digitValue d" "digitValue d \<le> 9"
    by (auto simp: isDigit_def digitValue_def)
  with Cons.prems have "0 \<le> 10 * acc + digitValue d" by simp
  from Cons.IH [OF _ this] Cons.prems(1)
  have "foldl (\<lambda>acc c. 10 * acc + digitValue c) (10 * acc + digitValue d) ds
      < (10 * acc + digitValue d + 1) * 10 ^ length ds"
    by simp
  also have "\<dots> \<le> (10 * (acc + 1)) * 10 ^ length ds"
    using d by (intro mult_right_mono) simp_all
  finally show ?case by (simp add: algebra_simps)
qed

lemma digitsValue_bounds:
  assumes "isDecimal s"
  shows "0 \<le> digitsValue s" and "digitsValue s < 2 ^ 53"
proof -
  from assms have digits: "list_all isDigit s" and len: "length s \<le> 15"
    by (simp_all add: isDecimal_def)
  show "0 \<le> digitsValue s"
    unfolding digitsValue_def using digits by (intro foldl_digits_nonneg) simp_all
  have "digitsValue s < 10 ^ length s"
    unfolding digitsValue_def using foldl_digits_less [OF digits, of 0] by simp
  also have "(10::int) ^ length s \<le> 10 ^ 15"
    using len by (intro power_increasing) simp_all
  also have "(10::int) ^ 15 < 2 ^ 53" by simp
  finally show "digitsValue s < 2 ^ 53" .
qed

lemma parseInt10_isDecimal:
  assumes "isDecimal s"
  shows "parseInt10 s = Num (digitsValue s)"
proof -
  from assms obtain d ds where s: "s = d # ds" and d: "isDigit d" and ds: "list_all isDigit ds"
    by (cases s) (auto simp: isDecimal_def)
  have "dropWhile isWhiteSpace s = s"
    using d by (simp add: s isDigit_not_space)
  moreover have "takeWhile isDigit s = s"
    using d ds by (simp add: s list_all_iff)
  ultimately have "parseInt10 s = toDouble (digitsValue s)"
    using isDigit_not_sign [OF d] by (simp add: parseInt10_def Let_def s)
  moreover have "\<bar>digitsValue s\<bar> < 2 ^ 53"
    using digitsValue_bounds [OF assms] by simp
  ultimately show ?thesis by (simp add: toDouble_safe)
qed

subsection \<open>The playlist compiler\<close>

lemma toWebviewAsset_fields [simp]:
  "w_playing_order (toWebviewAsset a lp) = parseInt10 (playing_order a)"
  "displayTime (toWebviewAsset a lp) = parseInt10 (time a)"
  "isStream (toWebviewAsset a lp) = isStreamAsset a"
  "w_id (toWebviewAsset a lp) = a_id a"
  by (simp_all add: toWebviewAsset_def)

lemma resolveAsset_Some:
  "resolveAsset results a = Some w \<Longrightarrow> \<exists>lp. w = toWebviewAsset a lp"
  by (auto simp: resolveAsset_def split: option.splits)

lemma find_Some_holds: "find P xs = Some x \<Longrightarrow> x \<in> set xs \<and> P x"
  by (induction xs) (auto split: if_splits)

lemma resolveAsset_None_iff:
  "resolveAsset results a = None \<longleftrightarrow> \<not> (\<exists>r\<in>set results. a_id (asset r) = a_id a \<and> success r)"
  by (auto simp: resolveAsset_def find_None_iff split: option.splits dest: find_Some_holds)

lemma set_resolvedAssets:
  "set (resolvedAssets results p) = {w. \<exists>a\<in>set (p_assets p). resolveAsset results a = Some w}"
  by (force simp: resolvedAssets_def image_iff)

lemma resolvedAssets_Nil_iff:
  "resolvedAssets results p = [] \<longleftrightarrow>
     \<not> (\<exists>a\<in>set (p_assets p). \<exists>r\<in>set results. a_id (asset r) = a_id a \<and> success r)"
proof -
  have "resolvedAssets results p = [] \<longleftrightarrow> set (resolvedAssets results p) = {}"
    by simp
  also have "\<dots> \<longleftrightarrow> (\<forall>a\<in>set (p_assets p). resolveAsset results a = None)"
    unfolding set_resolvedAssets by (auto simp: not_Some_eq [symmetric] simp del: not_Some_eq not_None_eq)
  finally show ?thesis by (simp add: resolveAsset_None_iff)
qed

lemma assets_compilePlaylist:
  "assets (compilePlaylist results p) = array_sort byPlayingOrder (resolvedAssets results p)"
  by (simp add: compilePlaylist_def Let_def)

lemma total_compilePlaylist:
  "totalCycleDuration (compilePlaylist results p) = sumDisplayTime (assets (compilePlaylist results p))"
  by (simp add: compilePlaylist_def Let_def)

lemma set_assets_compilePlaylist:
  "set (assets (compilePlaylist results p)) = set (resolvedAssets results p)"
  by (simp add: assets_compilePlaylist set_array_sort)

lemma cycle_iff:
  "c \<in> set (preparePlaylistsForCycling apiResponse results) \<longleftrightarrow>
     (\<exists>p\<in>set (playlists apiResponse). c = compilePlaylist results p \<and> assets c \<noteq> [])"
  by (auto simp: preparePlaylistsForCycling_def)

lemma resolveAsset_Some_find:
  "resolveAsset results a = Some w \<Longrightarrow>
   \<exists>r\<in>set results. find (\<lambda>r. a_id (asset r) = a_id a \<and> success r) results = Some r
      \<and> w = toWebviewAsset a (localPath r)"
  by (auto simp: resolveAsset_def split: option.splits dest: find_Some_holds)

lemma compiled_from_asset:
  assumes "c \<in> set (preparePlaylistsForCycling apiResponse results)" and "w \<in> set (assets c)"
  shows "\<exists>p\<in>set (playlists apiResponse). \<exists>a\<in>set (p_assets p). \<exists>r\<in>set results.
           find (\<lambda>r. a_id (asset r) = a_id a \<and> success r) results = Some r
           \<and> w = toWebviewAsset a (localPath r)"
proof -
  from assms(1) obtain p where p: "p \<in> set (playlists apiResponse)" and c: "c = compilePlaylist results p"
    by (auto simp: cycle_iff)
  from assms(2) have "w \<in> set (resolvedAssets results p)"
    by (simp add: c set_assets_compilePlaylist)
  then obtain a where "a \<in> set (p_assets p)" and "resolveAsset results a = Some w"
    by (auto simp: set_resolvedAssets)
  with p show ?thesis by (blast dest: resolveAsset_Some_find)
qed

lemma webview_from_result:
  assumes "w \<in> set (prepareAssetsForWebview results)"
  shows "\<exists>r\<in>set results. success r \<and> w = toWebviewAsset (asset r) (localPath r)"
  using assms by (auto simp: prepareAssetsForWebview_def set_array_sort)

subsection \<open>Compiled cycles: order and total duration\<close>

text \<open>
  C3 (as stated, refuted), on two inputs that pass the manifest validation (the key and
  the time only have to be non-empty) and whose assets all download.

  Keys \<open>2\<close>, \<open>x\<close> and \<open>1\<close>: \<open>parseInt\<close> reads \<open>x\<close> as \<open>NaN\<close>; the comparator yields \<open>NaN\<close>
  against it, which the sort reads as "equal"; the three elements are one ascending run,
  nothing moves, and the compiled cycle shows key 2 before key 1.

  Times \<open>9007199254740992\<close>, \<open>1\<close> and \<open>1\<close> (keys 1, 2, 3): the three display durations are
  these integers, their exact sum is \<open>9007199254740994\<close>, and the \<open>reduce\<close>, which adds
  doubles, yields \<open>9007199254740992\<close>.
\<close>

theorem C3_counterexample:
  "list_all validAsset slidesNaN
   \<and> map (\<lambda>c. map w_playing_order (assets c))
        (preparePlaylistsForCycling (manifestOf [playlistOf ''p'' slidesNaN])
           (map downloaded slidesNaN)) = [Num 2, NaN, Num 1] # []
   \<and> \<not> sorted_wrt (\<lambda>a b. js_le (w_playing_order a) (w_playing_order b))
        (assets (hd (preparePlaylistsForCycling (manifestOf [playlistOf ''p'' slidesNaN])
           (map downloaded slidesNaN))))
   \<and> list_all validAsset slidesLong
   \<and> map (\<lambda>c. map displayTime (assets c))
        (preparePlaylistsForCycling (manifestOf [playlistOf ''p'' slidesLong])
           (map downloaded slidesLong)) = [Num 9007199254740992, Num 1, Num 1] # []
   \<and> map totalCycleDuration
        (preparePlaylistsForCycling (manifestOf [playlistOf ''p'' slidesLong])
           (map downloaded slidesLong)) = [Num 9007199254740992]
   \<and> map (\<lambda>c. \<Sum>w\<leftarrow>assets c. the_int (displayTime w))
        (preparePlaylistsForCycling (manifestOf [playlistOf ''p'' slidesLong])
           (map downloaded slidesLong)) = [9007199254740994]"
  by code_simp

text \<open>
  C3 (amended). Every PlaylistCycle is the compilation of one playlist of the manifest,
  and its asset sequence is a rearrangement of that playlist's successfully fetched
  assets. If the ordering keys of its members are all integers (none is \<open>NaN\<close> or
  infinite), the sequence is sorted non-decreasing by the key and the sort is stable: the
  members with any one key keep the relative order in which the playlist lists them. Its
  totalCycleDuration is, for every cycle, the sum of its members' display durations added
  up from 0 in sequence order as doubles; that is the exact sum whenever the durations
  are integers whose absolute values add up to less than \<open>2 ^ 53\<close>, and \<open>NaN\<close> as soon as
  one duration is \<open>NaN\<close>.
\<close>

theorem C3_cycle_sorted_stable_total:
  assumes "c \<in> set (preparePlaylistsForCycling apiResponse results)"
  shows "(\<exists>p\<in>set (playlists apiResponse). c = compilePlaylist results p
          \<and> mset (assets c) = mset (resolvedAssets results p)
          \<and> ((\<forall>w\<in>set (assets c). \<exists>k. w_playing_order w = Num k) \<longrightarrow>
               sorted_wrt (\<lambda>a b. js_le (w_playing_order a) (w_playing_order b)) (assets c)
               \<and> (\<forall>k. filter (\<lambda>w. w_playing_order w = Num k) (assets c) =
                       filter (\<lambda>w. w_playing_order w = Num k) (resolvedAssets results p))))
     \<and> totalCycleDuration c = foldl (\<lambda>sum w. js_add sum (displayTime w)) (Num 0) (assets c)
     \<and> ((\<forall>w\<in>set (assets c). \<exists>d. displayTime w = Num d)
          \<and> (\<Sum>w\<leftarrow>assets c. \<bar>the_int (displayTime w)\<bar>) < 2 ^ 53 \<longrightarrow>
        totalCycleDuration c = Num (\<Sum>w\<leftarrow>assets c. the_int (displayTime w)))
     \<and> ((\<exists>w\<in>set (assets c). displayTime w = NaN) \<longrightarrow> totalCycleDuration c = NaN)"
proof -
  from assms obtain p where p: "p \<in> set (playlists apiResponse)"
    and c: "c = compilePlaylist results p"
    by (auto simp: cycle_iff)
  let ?rs = "resolvedAssets results p"
  have perm: "mset (assets c) = mset ?rs"
    by (simp add: c assets_compilePlaylist mset_array_sort)
  have ordered: "sorted_wrt (\<lambda>a b. js_le (w_playing_order a) (w_playing_order b)) (assets c)
      \<and> (\<forall>k. filter (\<lambda>w. w_playing_order w = Num k) (assets c) =
              filter (\<lambda>w. w_playing_order w = Num k) ?rs)"
    if int_keys: "\<forall>w\<in>set (assets c). \<exists>k. w_playing_order w = Num k"
  proof -
    have keys: "\<forall>w\<in>set ?rs. \<exists>k. w_playing_order w = Num k"
      using int_keys by (simp add: c set_assets_compilePlaylist)
    have sorted_eq: "assets c = sort_key orderKey ?rs"
      by (simp add: c assets_compilePlaylist array_sort_sort_key [OF keys])
    have "sorted (map orderKey (assets c))"
      by (simp add: sorted_eq)
    then have 1: "sorted_wrt (\<lambda>a b. js_le (w_playing_order a) (w_playing_order b)) (assets c)"
      using int_keys by (simp add: sorted_wrt_js_le)
    have "filter (\<lambda>w. w_playing_order w = Num k) (assets c) =
          filter (\<lambda>w. w_playing_order w = Num k) ?rs" for k
    proof -
      have "filter (\<lambda>w. w_playing_order w = Num k) (assets c) = filter (\<lambda>w. orderKey w = k) (assets c)"
        using int_keys by (rule key_filter_orderKey)
      also have "\<dots> = filter (\<lambda>w. orderKey w = k) ?rs"
        by (simp add: sorted_eq sort_key_stable)
      also have "\<dots> = filter (\<lambda>w. w_playing_order w = Num k) ?rs"
        using keys by (rule key_filter_orderKey [symmetric])
      finally show ?thesis .
    qed
    with 1 show ?thesis by blast
  qed
  have total: "totalCycleDuration c = foldl (\<lambda>sum w. js_add sum (displayTime w)) (Num 0) (assets c)"
    unfolding c total_compilePlaylist by (simp add: sumDisplayTime_def)
  have exact: "totalCycleDuration c = Num (\<Sum>w\<leftarrow>assets c. the_int (displayTime w))"
    if "\<forall>w\<in>set (assets c). \<exists>d. displayTime w = Num d"
      and "(\<Sum>w\<leftarrow>assets c. \<bar>the_int (displayTime w)\<bar>) < 2 ^ 53"
    using sumDisplayTime_exact [OF that] unfolding c total_compilePlaylist .
  have nan: "totalCycleDuration c = NaN" if "\<exists>w\<in>set (assets c). displayTime w = NaN"
    using sumDisplayTime_NaN [OF that] unfolding c total_compilePlaylist .
  from p c perm ordered total exact nan show ?thesis by blast
qed

theorem C3_cycle_sorted_stable_total_witness:
  "compilePlaylist (map downloaded slides) (playlistOf ''p'' slides)
     \<in> set (preparePlaylistsForCycling (manifestOf [playlistOf ''p'' slides]) (map downloaded slides))
   \<and> map w_playing_order (assets (compilePlaylist (map downloaded slides) (playlistOf ''p'' slides)))
       = [Num 1, Num 1, Num 2]
   \<and> map w_id (assets (compilePlaylist (map downloaded slides) (playlistOf ''p'' slides)))
       = [''b'', ''c'', ''a'']
   \<and> map displayTime (assets (compilePlaylist (map downloaded slides) (playlistOf ''p'' slides)))
       = [Num 10, Num 3, Num 5]
   \<and> sorted_wrt (\<lambda>a b. js_le (w_playing_order a) (w_playing_order b))
       (assets (compilePlaylist (map downloaded slides) (playlistOf ''p'' slides)))
   \<and> totalCycleDuration (compilePlaylist (map downloaded slides) (playlistOf ''p'' slides)) =
       Num (\<Sum>w\<leftarrow>assets (compilePlaylist (map downloaded slides) (playlistOf ''p'' slides)).
              the_int (displayTime w))
   \<and> totalCycleDuration (compilePlaylist (map downloaded slides) (playlistOf ''p'' slides)) = Num 18"
proof -
  let ?c = "compilePlaylist (map downloaded slides) (playlistOf ''p'' slides)"
  let ?M = "manifestOf [playlistOf ''p'' slides]"
  have keys: "map w_playing_order (assets ?c) = [Num 1, Num 1, Num 2]"
    by code_simp
  have ids: "map w_id (assets ?c) = [''b'', ''c'', ''a'']"
    by code_simp
  have times: "map displayTime (assets ?c) = [Num 10, Num 3, Num 5]"
    by code_simp
  have total: "totalCycleDuration ?c = Num 18"
    by code_simp
  have mem: "?c \<in> set (preparePlaylistsForCycling ?M (map downloaded slides))"
    by code_simp
  have "\<forall>k\<in>set (map w_playing_order (assets ?c)). \<exists>i. k = Num i"
    unfolding keys by simp
  then have int_keys: "\<forall>w\<in>set (assets ?c). \<exists>k. w_playing_order w = Num k"
    by simp
  have "\<forall>d\<in>set (map displayTime (assets ?c)). \<exists>i. d = Num i"
    unfolding times by simp
  then have int_times: "\<forall>w\<in>set (assets ?c). \<exists>d. displayTime w = Num d"
    by simp
  have "(\<Sum>w\<leftarrow>assets ?c. \<bar>the_int (displayTime w)\<bar>) = (\<Sum>d\<leftarrow>map displayTime (assets ?c). \<bar>the_int d\<bar>)"
    by (simp add: comp_def)
  also have "\<dots> = 18"
    unfolding times by simp
  finally have small: "(\<Sum>w\<leftarrow>assets ?c. \<bar>the_int (displayTime w)\<bar>) < 2 ^ 53"
    by simp
  note run = C3_cycle_sorted_stable_total [OF mem]
  from run int_keys
  have 1: "sorted_wrt (\<lambda>a b. js_le (w_playing_order a) (w_playing_order b)) (assets ?c)"
    by blast
  from run int_times small
  have 2: "totalCycleDuration ?c = Num (\<Sum>w\<leftarrow>assets ?c. the_int (displayTime w))"
    by blast
  from mem keys ids times 1 2 total show ?thesis
    by blast
qed

subsection \<open>Compiled assets: display time and ordering key\<close>

text \<open>
  C6 (as stated, refuted). A manifest asset with \<open>time = "-5"\<close> and
  \<open>playing_order = "first"\<close> passes validation, which only asks for non-empty values. Once
  downloaded, both compilers turn it into a WebviewAsset with display time \<open>-5\<close> and
  ordering key \<open>NaN\<close>.
\<close>

theorem C6_counterexample:
  "validAsset oddSlide
   \<and> map displayTime (prepareAssetsForWebview [downloaded oddSlide]) = [Num (- 5)]
   \<and> map w_playing_order (prepareAssetsForWebview [downloaded oddSlide]) = [NaN]
   \<and> \<not> js_ge (Num (- 5)) (Num 0)
   \<and> map (\<lambda>c. map displayTime (assets c))
        (preparePlaylistsForCycling (manifestOf [playlistOf ''p'' [oddSlide]]) [downloaded oddSlide])
       = [Num (- 5)] # []
   \<and> map (\<lambda>c. map w_playing_order (assets c))
        (preparePlaylistsForCycling (manifestOf [playlistOf ''p'' [oddSlide]]) [downloaded oddSlide])
       = [NaN] # []"
  by code_simp

text \<open>
  C6 (amended). Every WebviewAsset that \<open>prepareAssetsForWebview\<close> produces is built from
  the asset of a successful FetchResult, and every WebviewAsset in a cycle that
  \<open>preparePlaylistsForCycling\<close> produces is built from an asset of a playlist of the
  manifest and the first successful FetchResult with that asset's identifier. Its
  displayTime is \<open>parseInt(time, 10)\<close> and its ordering key is \<open>parseInt(playing_order, 10)\<close>
  of that asset, unchanged. Whenever the asset's \<open>time\<close> and \<open>playing_order\<close> are strings
  of 1 to 15 decimal digits, the displayTime is the integer that \<open>time\<close> denotes, which is
  not negative, and the ordering key is the integer that \<open>playing_order\<close> denotes.
\<close>

theorem C6_displayTime_nonneg_key_integer:
  "(\<forall>w\<in>set (prepareAssetsForWebview results).
      \<exists>r\<in>set results. success r \<and> w = toWebviewAsset (asset r) (localPath r)
        \<and> displayTime w = parseInt10 (time (asset r))
        \<and> w_playing_order w = parseInt10 (playing_order (asset r))
        \<and> (decimalAsset (asset r) \<longrightarrow>
              displayTime w = Num (digitsValue (time (asset r)))
              \<and> 0 \<le> digitsValue (time (asset r))
              \<and> js_ge (displayTime w) (Num 0)
              \<and> w_playing_order w = Num (digitsValue (playing_order (asset r)))))
   \<and> (\<forall>c\<in>set (preparePlaylistsForCycling apiResponse results). \<forall>w\<in>set (assets c).
      \<exists>p\<in>set (playlists apiResponse). \<exists>a\<in>set (p_assets p). \<exists>r\<in>set results.
        find (\<lambda>r. a_id (asset r) = a_id a \<and> success r) results = Some r
        \<and> w = toWebviewAsset a (localPath r)
        \<and> displayTime w = parseInt10 (time a)
        \<and> w_playing_order w = parseInt10 (playing_order a)
        \<and> (decimalAsset a \<longrightarrow>
              displayTime w = Num (digitsValue (time a))
              \<and> 0 \<le> digitsValue (time a)
              \<and> js_ge (displayTime w) (Num 0)
              \<and> w_playing_order w = Num (digitsValue (playing_order a))))"
proof -
  have field: "displayTime (toWebviewAsset a lp) = Num (digitsValue (time a))
      \<and> 0 \<le> digitsValue (time a)
      \<and> js_ge (displayTime (toWebviewAsset a lp)) (Num 0)
      \<and> w_playing_order (toWebviewAsset a lp) = Num (digitsValue (playing_order a))"
    if "decimalAsset a" for a lp
  proof -
    from that have t: "isDecimal (time a)" and k: "isDecimal (playing_order a)"
      by (simp_all add: decimalAsset_def)
    from digitsValue_bounds(1) [OF t] parseInt10_isDecimal [OF t] parseInt10_isDecimal [OF k]
    show ?thesis by (simp add: js_ge_def)
  qed
  have "\<exists>r\<in>set results. success r \<and> w = toWebviewAsset (asset r) (localPath r)
        \<and> displayTime w = parseInt10 (time (asset r))
        \<and> w_playing_order w = parseInt10 (playing_order (asset r))
        \<and> (decimalAsset (asset r) \<longrightarrow>
              displayTime w = Num (digitsValue (time (asset r)))
              \<and> 0 \<le> digitsValue (time (asset r))
              \<and> js_ge (displayTime w) (Num 0)
              \<and> w_playing_order w = Num (digitsValue (playing_order (asset r))))"
    if "w \<in> set (prepareAssetsForWebview results)" for w
  proof -
    from webview_from_result [OF that] obtain r where r: "r \<in> set results" "success r"
      and w: "w = toWebviewAsset (asset r) (localPath r)"
      by blast
    have 1: "displayTime w = parseInt10 (time (asset r))"
      and 2: "w_playing_order w = parseInt10 (playing_order (asset r))"
      by (simp_all add: w)
    from r w 1 2 field [of "asset r" "localPath r", folded w] show ?thesis
      by blast
  qed
  moreover have "\<exists>p\<in>set (playlists apiResponse). \<exists>a\<in>set (p_assets p). \<exists>r\<in>set results.
        find (\<lambda>r. a_id (asset r) = a_id a \<and> success r) results = Some r
        \<and> w = toWebviewAsset a (localPath r)
        \<and> displayTime w = parseInt10 (time a)
        \<and> w_playing_order w = parseInt10 (playing_order a)
        \<and> (decimalAsset a \<longrightarrow>
              displayTime w = Num (digitsValue (time a))
              \<and> 0 \<le> digitsValue (time a)
              \<and> js_ge (displayTime w) (Num 0)
              \<and> w_playing_order w = Num (digitsValue (playing_order a)))"
    if "c \<in> set (preparePlaylistsForCycling apiResponse results)" and "w \<in> set (assets c)" for c w
  proof -
    from compiled_from_asset [OF that] obtain p a r where p: "p \<in> set (playlists apiResponse)"
      and a: "a \<in> set (p_assets p)" and r: "r \<in> set results"
      and f: "find (\<lambda>r. a_id (asset r) = a_id a \<and> success r) results = Some r"
      and w: "w = toWebviewAsset a (localPath r)"
      by blast
    have 1: "displayTime w = parseInt10 (time a)"
      and 2: "w_playing_order w = parseInt10 (playing_order a)"
      by (simp_all add: w)
    from p a r f w 1 2 field [of a "localPath r", folded w] show ?thesis
      by blast
  qed
  ultimately show ?thesis by blast
qed

theorem C6_displayTime_nonneg_key_integer_witness:
  "list_all decimalAsset slides
   \<and> map displayTime (prepareAssetsForWebview (map downloaded slides)) = [Num 10, Num 3, Num 5]
   \<and> map w_playing_order (prepareAssetsForWebview (map downloaded slides)) = [Num 1, Num 1, Num 2]
   \<and> list_all (\<lambda>w. js_ge (displayTime w) (Num 0) \<and> (\<exists>k. w_playing_order w = Num k))
        (prepareAssetsForWebview (map downloaded slides))
   \<and> list_all (\<lambda>c. list_all (\<lambda>w. js_ge (displayTime w) (Num 0) \<and> (\<exists>k. w_playing_order w = Num k))
        (assets c))
        (preparePlaylistsForCycling (manifestOf [playlistOf ''p'' slides]) (map downloaded slides))"
proof -
  let ?results = "map downloaded slides"
  let ?M = "manifestOf [playlistOf ''p'' slides]"
  have dec: "list_all decimalAsset slides"
    by code_simp
  then have 1: "\<forall>r\<in>set ?results. decimalAsset (asset r)"
    by (simp add: list_all_iff downloaded_def)
  from dec have 2: "\<forall>p\<in>set (playlists ?M). \<forall>a\<in>set (p_assets p). decimalAsset a"
    by (simp add: list_all_iff manifestOf_def playlistOf_def)
  have times: "map displayTime (prepareAssetsForWebview ?results) = [Num 10, Num 3, Num 5]"
    by code_simp
  have keys: "map w_playing_order (prepareAssetsForWebview ?results) = [Num 1, Num 1, Num 2]"
    by code_simp
  note run = C6_displayTime_nonneg_key_integer [of ?results ?M]
  have a: "\<forall>w\<in>set (prepareAssetsForWebview ?results).
      js_ge (displayTime w) (Num 0) \<and> (\<exists>k. w_playing_order w = Num k)"
    using run [THEN conjunct1] 1 by blast
  have b: "\<forall>c\<in>set (preparePlaylistsForCycling ?M ?results). \<forall>w\<in>set (assets c).
      js_ge (displayTime w) (Num 0) \<and> (\<exists>k. w_playing_order w = Num k)"
    using run [THEN conjunct2] 2 by blast
  from dec times keys a b show ?thesis
    by (simp add: list_all_iff)
qed

subsection \<open>Compiled cycles are never empty\<close>

text \<open>
  C7. Every PlaylistCycle the compiler returns has at least one asset, and the cycles
  returned are exactly the compiled playlists that have a successful FetchResult for at
  least one of their assets, in manifest order: a playlist whose every asset failed to
  fetch contributes no cycle.
\<close>

theorem C7_no_empty_cycle:
  "(\<forall>c\<in>set (preparePlaylistsForCycling apiResponse results). length (assets c) \<ge> 1)
   \<and> preparePlaylistsForCycling apiResponse results =
       map (compilePlaylist results)
         (filter (\<lambda>p. \<exists>a\<in>set (p_assets p). \<exists>r\<in>set results. a_id (asset r) = a_id a \<and> success r)
            (playlists apiResponse))"
proof -
  have "length (assets (compilePlaylist results p)) > 0 \<longleftrightarrow>
        (\<exists>a\<in>set (p_assets p). \<exists>r\<in>set results. a_id (asset r) = a_id a \<and> success r)" for p
    using resolvedAssets_Nil_iff [of results p]
    by (simp add: assets_compilePlaylist array_sort_Nil_iff)
  then have "preparePlaylistsForCycling apiResponse results =
       map (compilePlaylist results)
         (filter (\<lambda>p. \<exists>a\<in>set (p_assets p). \<exists>r\<in>set results. a_id (asset r) = a_id a \<and> success r)
            (playlists apiResponse))"
    by (simp add: preparePlaylistsForCycling_def filter_map comp_def)
  moreover have "\<forall>c\<in>set (preparePlaylistsForCycling apiResponse results). length (assets c) \<ge> 1"
    by (auto simp: preparePlaylistsForCycling_def Suc_le_eq)
  ultimately show ?thesis by blast
qed

theorem C7_no_empty_cycle_witness:
  "map playlistId (preparePlaylistsForCycling
       (manifestOf [playlistOf ''p'' [image ''a'' ''1'' ''5''], playlistOf ''q'' [image ''b'' ''1'' ''5'']])
       [failed (image ''a'' ''1'' ''5''), downloaded (image ''b'' ''1'' ''5'')]) = [''q'']
   \<and> list_all (\<lambda>c. length (assets c) \<ge> 1) (preparePlaylistsForCycling
       (manifestOf [playlistOf ''p'' [image ''a'' ''1'' ''5''], playlistOf ''q'' [image ''b'' ''1'' ''5'']])
       [failed (image ''a'' ''1'' ''5''), downloaded (image ''b'' ''1'' ''5'')])"
proof -
  have "map playlistId (preparePlaylistsForCycling
       (manifestOf [playlistOf ''p'' [image ''a'' ''1'' ''5''], playlistOf ''q'' [image ''b'' ''1'' ''5'']])
       [failed (image ''a'' ''1'' ''5''), downloaded (image ''b'' ''1'' ''5'')]) = [''q'']"
    by code_simp
  with C7_no_empty_cycle [of
       "manifestOf [playlistOf ''p'' [image ''a'' ''1'' ''5''], playlistOf ''q'' [image ''b'' ''1'' ''5'']]"
       "[failed (image ''a'' ''1'' ''5''), downloaded (image ''b'' ''1'' ''5'')]"]
  show ?thesis by (simp add: list_all_iff)
qed

subsection \<open>One attempt\<close>

lemma attempt_stream:
  "isStreamAsset a \<Longrightarrow>
   fst (attempt h assetsDir a answer) =
     Inr \<lparr>asset = a, success = True, error = None, localPath = Some (filepath a)\<rparr>"
  by (simp add: attempt_def Let_def)

lemma attempt_Inr_asset:
  "fst (attempt h assetsDir a answer) = Inr r \<Longrightarrow> asset r = a \<and> success r"
  by (auto simp: attempt_def Let_def split: if_splits sum.splits option.splits)


lemma writes_append: "writes (es @ fs) = writes es @ writes fs"
  by (induction es rule: writes.induct) auto

lemma sleeps_append: "sleeps (es @ fs) = sleeps es @ sleeps fs"
  by (induction es rule: sleeps.induct) auto

lemma attempt_writes:
  "length (writes (snd (attempt h assetsDir a answer))) =
     (case fst (attempt h assetsDir a answer) of
        Inl e \<Rightarrow> 0
      | Inr r \<Rightarrow> if isStreamAsset a then 0 else 1)"
  by (auto simp: attempt_def Let_def split: if_splits sum.splits option.splits)

lemma attempt_sleeps: "sleeps (snd (attempt h assetsDir a answer)) = []"
  by (auto simp: attempt_def Let_def split: if_splits sum.splits option.splits)

lemma attemptOnce_eq:
  "attemptOnce h assetsDir a w =
     (fst (attempt h assetsDir a (net w (tick w))),
      w\<lparr>tick := Suc (tick w), trace := trace w @ snd (attempt h assetsDir a (net w (tick w)))\<rparr>)"
  by (simp add: attemptOnce_def emit_def split_beta)

subsection \<open>The retry loop\<close>

lemma downloadAsset_from_inv:
  "asset (fst (downloadAsset_from h assetsDir a n i w)) = a
   \<and> net (snd (downloadAsset_from h assetsDir a n i w)) = net w
   \<and> tick w \<le> tick (snd (downloadAsset_from h assetsDir a n i w))
   \<and> int (tick (snd (downloadAsset_from h assetsDir a n i w))) \<le> int (tick w) + max 0 (n - i + 1)
   \<and> (i \<le> n \<longrightarrow> tick w < tick (snd (downloadAsset_from h assetsDir a n i w)))
   \<and> (success (fst (downloadAsset_from h assetsDir a n i w)) \<longrightarrow>
        (\<exists>answer. fst (attempt h assetsDir a answer) = Inr (fst (downloadAsset_from h assetsDir a n i w))))
   \<and> length (writes (trace (snd (downloadAsset_from h assetsDir a n i w)))) =
       length (writes (trace w)) +
         (if success (fst (downloadAsset_from h assetsDir a n i w)) \<and> \<not> isStreamAsset a then 1 else 0)"
proof (induction h assetsDir a n i w rule: downloadAsset_from.induct)
  case (1 h assetsDir a n i w)
  let ?out = "fst (attempt h assetsDir a (net w (tick w)))"
  let ?es = "snd (attempt h assetsDir a (net w (tick w)))"
  let ?w1 = "w\<lparr>tick := Suc (tick w), trace := trace w @ ?es\<rparr>"
  have once: "attemptOnce h assetsDir a w = (?out, ?w1)"
    by (rule attemptOnce_eq)
  show ?case
  proof (cases "i \<le> n")
    case False
    then show ?thesis by (subst (1 2 3 4 5 6 7 8 9) downloadAsset_from.simps) simp
  next
    case True
    show ?thesis
    proof (cases ?out)
      case (Inr r)
      have eq: "downloadAsset_from h assetsDir a n i w = (r, ?w1)"
        using True Inr by (subst downloadAsset_from.simps) (simp add: once)
      have "asset r = a" "success r" using Inr by (simp_all add: attempt_Inr_asset)
      moreover have "length (writes ?es) = (if isStreamAsset a then 0 else 1)"
        using attempt_writes [of h assetsDir a "net w (tick w)"] Inr by simp
      ultimately show ?thesis
        unfolding eq using True Inr by (auto simp: writes_append)
    next
      case (Inl e)
      have nowrite: "length (writes ?es) = 0"
        using attempt_writes [of h assetsDir a "net w (tick w)"] Inl by simp
      show ?thesis
      proof (cases "i = n")
        case True
        have eq: "downloadAsset_from h assetsDir a n i w =
          (\<lparr>asset = a, success = False, error = Some (messageOr ''Unknown error'' e), localPath = None\<rparr>,
           emit [Notify ''failed''] ?w1)"
          using True Inl by (subst downloadAsset_from.simps) (simp add: once)
        show ?thesis unfolding eq using True nowrite by (simp add: emit_def writes_append)
      next
        case False
        let ?w2 = "emit [Sleep (2 ^ nat i * 1000)] ?w1"
        have eq: "downloadAsset_from h assetsDir a n i w = downloadAsset_from h assetsDir a n (i + 1) ?w2"
          using True False Inl by (subst downloadAsset_from.simps) (simp add: once)
        have w2: "net ?w2 = net w" "tick ?w2 = Suc (tick w)"
          "length (writes (trace ?w2)) = length (writes (trace w))"
          using nowrite by (simp_all add: emit_def writes_append)
        from "1.IH" [OF True once [symmetric] Inl False]
        show ?thesis unfolding eq w2 using True False by auto
      qed
    qed
  qed
qed

lemma downloadAsset_from_stream:
  assumes "isStreamAsset a" and "i \<le> retries"
  shows "downloadAsset_from h assetsDir a retries i w =
     (\<lparr>asset = a, success = True, error = None, localPath = Some (filepath a)\<rparr>,
      w\<lparr>tick := Suc (tick w), trace := trace w @ snd (attempt h assetsDir a (net w (tick w)))\<rparr>)"
  using assms by (subst downloadAsset_from.simps) (simp add: attemptOnce_eq attempt_stream)

text \<open>
  A run of the loop from attempt \<open>i\<close>: the attempts before \<open>j\<close> throw, and attempt \<open>j\<close>
  decides, because it returns or because it is the last one allowed.
\<close>

lemma loop_run:
  assumes "i \<le> j" and "j \<le> n"
    and "\<forall>k. i \<le> k \<and> k < j \<longrightarrow> (\<exists>e. fst (attempt h assetsDir a (net w (tick w + nat (k - i)))) = Inl e)"
    and "j < n \<longrightarrow> (\<exists>r. fst (attempt h assetsDir a (net w (tick w + nat (j - i)))) = Inr r)"
  shows "downloadAsset_from h assetsDir a n i w =
     ((case fst (attempt h assetsDir a (net w (tick w + nat (j - i)))) of
         Inr r \<Rightarrow> r
       | Inl e \<Rightarrow> \<lparr>asset = a, success = False, error = Some (messageOr ''Unknown error'' e),
                   localPath = None\<rparr>),
      w\<lparr>tick := tick w + nat (j - i + 1),
        trace := trace w
          @ concat (map (\<lambda>k. snd (attempt h assetsDir a (net w (tick w + nat (k - i))))
                              @ [Sleep (2 ^ nat k * 1000)]) [i..j - 1])
          @ snd (attempt h assetsDir a (net w (tick w + nat (j - i))))
          @ (case fst (attempt h assetsDir a (net w (tick w + nat (j - i)))) of
               Inl e \<Rightarrow> [Notify ''failed''] | Inr r \<Rightarrow> [])\<rparr>)"
  using assms
proof (induction "nat (j - i)" arbitrary: i w)
  case 0
  then have ij: "i = j" by simp
  show ?case
  proof (cases "fst (attempt h assetsDir a (net w (tick w)))")
    case (Inr r)
    with 0 ij show ?thesis
      by (subst downloadAsset_from.simps) (simp add: attemptOnce_eq)
  next
    case (Inl e)
    with "0.prems"(4) ij have "j = n" using "0.prems"(2) by auto
    with Inl ij show ?thesis
      by (subst downloadAsset_from.simps) (simp add: attemptOnce_eq emit_def)
  qed
next
  case (Suc m)
  then have lt: "i < j" and m: "m = nat (j - (i + 1))" by auto
  from Suc.prems(3) lt obtain e where e: "fst (attempt h assetsDir a (net w (tick w))) = Inl e"
    by force
  let ?w' = "emit [Sleep (2 ^ nat i * 1000)]
      (w\<lparr>tick := Suc (tick w), trace := trace w @ snd (attempt h assetsDir a (net w (tick w)))\<rparr>)"
  have shift: "tick ?w' + nat (k - (i + 1)) = tick w + nat (k - i)" if "i + 1 \<le> k" for k
    using that by (simp add: emit_def nat_diff_distrib)
  have net: "net ?w' = net w" by (simp add: emit_def)
  have step: "downloadAsset_from h assetsDir a n i w = downloadAsset_from h assetsDir a n (i + 1) ?w'"
    using lt Suc.prems(2) e by (subst downloadAsset_from.simps) (simp add: attemptOnce_eq)
  have p3: "\<forall>k. i + 1 \<le> k \<and> k < j \<longrightarrow> (\<exists>e. fst (attempt h assetsDir a (net ?w' (tick ?w' + nat (k - (i + 1))))) = Inl e)"
    using Suc.prems(3) by (simp add: net shift)
  have p4: "j < n \<longrightarrow> (\<exists>r. fst (attempt h assetsDir a (net ?w' (tick ?w' + nat (j - (i + 1))))) = Inr r)"
    using Suc.prems(4) lt by (simp add: net shift)
  have upto: "[i..j - 1] = i # [i + 1..j - 1]"
    using lt by (simp add: upto_rec1)
  have maps: "map (\<lambda>k. snd (attempt h assetsDir a (net w (tick ?w' + nat (k - (i + 1)))))
                              @ [Sleep (2 ^ nat k * 1000)]) [i + 1..j - 1]
      = map (\<lambda>k. snd (attempt h assetsDir a (net w (tick w + nat (k - i))))
                              @ [Sleep (2 ^ nat k * 1000)]) [i + 1..j - 1]"
    by (rule map_cong [OF refl]) (simp add: shift)
  have IH: "downloadAsset_from h assetsDir a n (i + 1) ?w' = 
     ((case fst (attempt h assetsDir a (net ?w' (tick ?w' + nat (j - (i + 1))))) of
         Inr r \<Rightarrow> r
       | Inl e \<Rightarrow> \<lparr>asset = a, success = False, error = Some (messageOr ''Unknown error'' e),
                   localPath = None\<rparr>),
      ?w'\<lparr>tick := tick ?w' + nat (j - (i + 1) + 1),
        trace := trace ?w'
          @ concat (map (\<lambda>k. snd (attempt h assetsDir a (net ?w' (tick ?w' + nat (k - (i + 1)))))
                              @ [Sleep (2 ^ nat k * 1000)]) [i + 1..j - 1])
          @ snd (attempt h assetsDir a (net ?w' (tick ?w' + nat (j - (i + 1)))))
          @ (case fst (attempt h assetsDir a (net ?w' (tick ?w' + nat (j - (i + 1))))) of
               Inl e \<Rightarrow> [Notify ''failed''] | Inr r \<Rightarrow> [])\<rparr>)"
    using lt Suc.prems(2) by (intro Suc.hyps(1) [OF m _ _ p3 p4]) simp_all
  have j: "tick ?w' + nat (j - (i + 1)) = tick w + nat (j - i)"
    using lt by (intro shift) simp
  show ?case
    unfolding step IH net j maps upto using lt
    by (simp add: emit_def nat_diff_distrib nat_add_distrib)
qed

text \<open>
  Every run with a retry bound of at least 1 is of this kind: the deciding attempt is the
  first one that returns, or the last one if none does.
\<close>

lemma deciding_attempt:
  assumes "1 \<le> n"
  shows "\<exists>j. 1 \<le> j \<and> j \<le> n
     \<and> (\<forall>k\<in>{1..<j}. \<exists>e. fst (attempt h assetsDir a (answerAt w k)) = Inl e)
     \<and> (j < n \<longrightarrow> (\<exists>r. fst (attempt h assetsDir a (answerAt w j)) = Inr r))"
proof (cases "\<exists>k\<in>{1..n}. \<exists>r. fst (attempt h assetsDir a (answerAt w k)) = Inr r")
  case True
  let ?S = "{k \<in> {1..n}. \<exists>r. fst (attempt h assetsDir a (answerAt w k)) = Inr r}"
  have fin: "finite ?S"
    by (rule finite_subset [of _ "{1..n}"]) auto
  have ne: "?S \<noteq> {}"
    using True by auto
  let ?j = "Min ?S"
  have j: "?j \<in> ?S" using Min_in [OF fin ne] .
  have least: "k \<notin> ?S" if "k < ?j" for k
    using Min_le [OF fin, of k] that by auto
  have "\<exists>e. fst (attempt h assetsDir a (answerAt w k)) = Inl e" if "k \<in> {1..<?j}" for k
  proof -
    from that j have "k \<in> {1..n}" by auto
    with least [of k] that have "\<nexists>r. fst (attempt h assetsDir a (answerAt w k)) = Inr r"
      by auto
    then show ?thesis by (cases "fst (attempt h assetsDir a (answerAt w k))") auto
  qed
  with j show ?thesis by (intro exI [of _ ?j]) auto
next
  case False
  then have "\<exists>e. fst (attempt h assetsDir a (answerAt w k)) = Inl e" if "k \<in> {1..<n}" for k
    using that by (cases "fst (attempt h assetsDir a (answerAt w k))") auto
  with assms show ?thesis by (intro exI [of _ n]) auto
qed

subsection \<open>Streams are never fetch failures\<close>

lemma downloadAsset_stream:
  assumes "isStreamAsset a" and "1 \<le> retries"
  shows "downloadAsset h assetsDir a retries w =
     (\<lparr>asset = a, success = True, error = None, localPath = Some (filepath a)\<rparr>,
      w\<lparr>tick := Suc (tick w), trace := trace w @ snd (attempt h assetsDir a (net w (tick w)))\<rparr>)"
  unfolding downloadAsset_def by (rule downloadAsset_from_stream [OF assms])

lemma downloadEach_stream:
  "\<forall>r\<in>set (fst (downloadEach h assetsDir allAssets w)). isStreamAsset (asset r) \<longrightarrow>
     r = \<lparr>asset = asset r, success = True, error = None, localPath = Some (filepath (asset r))\<rparr>"
proof (induction allAssets arbitrary: w)
  case Nil
  then show ?case by simp
next
  case (Cons a allAssets)
  obtain r w1 where one: "downloadAsset h assetsDir a 3 w = (r, w1)"
    by (cases "downloadAsset h assetsDir a 3 w")
  let ?w2 = "if isDownloadable a then emit [Sleep 100] w1 else w1"
  obtain rs w3 where rest: "downloadEach h assetsDir allAssets ?w2 = (rs, w3)"
    by (cases "downloadEach h assetsDir allAssets ?w2")
  have eq: "downloadEach h assetsDir (a # allAssets) w = (r # rs, w3)"
    by (simp add: one rest)
  have a: "asset r = a"
    using downloadAsset_from_inv [of h assetsDir a 3 1 w] one by (simp add: downloadAsset_def)
  have "r = \<lparr>asset = a, success = True, error = None, localPath = Some (filepath a)\<rparr>"
    if "isStreamAsset a"
    using downloadAsset_stream [OF that, of 3 h assetsDir w] one by simp
  with a Cons.IH [of ?w2] rest show ?case
    unfolding eq by simp
qed

text \<open>
  With a retry bound below 1 the loop body never runs: no probe is made, and the function
  returns with the statement after the loop, which the source marks as never reached. No
  call in the program passes such a bound: \<open>downloadAllAssets\<close> passes 3, which is also
  the parameter's default.
\<close>

lemma downloadAsset_no_attempt:
  "retries < 1 \<Longrightarrow>
   downloadAsset h assetsDir a retries w =
     (\<lparr>asset = a, success = False, error = Some ''Unexpected error in retry loop'',
       localPath = None\<rparr>, w)"
  unfolding downloadAsset_def by (subst downloadAsset_from.simps) simp

text \<open>
  C4. For every stream-classified asset, an attempt of \<open>downloadAsset\<close> returns a
  FetchResult with success true and localPath equal to the asset's source location,
  whatever the header-only probe does (it may reject, or resolve with any status). So
  \<open>downloadAsset\<close>, with the retry bound of at least 1 that every call gives it, returns
  that result in its first attempt, without a pause and without writing a file; and every
  result that \<open>downloadAllAssets\<close> returns for a stream is that result.
\<close>

theorem C4_stream_success:
  assumes "isStreamAsset a"
  shows "(\<forall>answer. fst (attempt h assetsDir a answer) =
            Inr \<lparr>asset = a, success = True, error = None, localPath = Some (filepath a)\<rparr>)
     \<and> (1 \<le> retries \<longrightarrow>
          fst (downloadAsset h assetsDir a retries w) =
            \<lparr>asset = a, success = True, error = None, localPath = Some (filepath a)\<rparr>
          \<and> tick (snd (downloadAsset h assetsDir a retries w)) = Suc (tick w)
          \<and> sleeps (trace (snd (downloadAsset h assetsDir a retries w))) = sleeps (trace w)
          \<and> writes (trace (snd (downloadAsset h assetsDir a retries w))) = writes (trace w))
     \<and> (\<forall>results w'. downloadAllAssets h assetsDir mk apiResponse w = (Inr results, w') \<longrightarrow>
          (\<forall>r\<in>set results. asset r = a \<longrightarrow>
             r = \<lparr>asset = a, success = True, error = None, localPath = Some (filepath a)\<rparr>))"
proof -
  have 1: "fst (attempt h assetsDir a answer) =
      Inr \<lparr>asset = a, success = True, error = None, localPath = Some (filepath a)\<rparr>" for answer
    using assms by (rule attempt_stream)
  have 2: "fst (downloadAsset h assetsDir a retries w) =
            \<lparr>asset = a, success = True, error = None, localPath = Some (filepath a)\<rparr>
          \<and> tick (snd (downloadAsset h assetsDir a retries w)) = Suc (tick w)
          \<and> sleeps (trace (snd (downloadAsset h assetsDir a retries w))) = sleeps (trace w)
          \<and> writes (trace (snd (downloadAsset h assetsDir a retries w))) = writes (trace w)"
    if "1 \<le> retries"
  proof -
    have "sleeps (snd (attempt h assetsDir a (net w (tick w)))) = []"
      by (rule attempt_sleeps)
    moreover have "writes (snd (attempt h assetsDir a (net w (tick w)))) = []"
      using attempt_writes [of h assetsDir a "net w (tick w)"] assms
      by (simp add: attempt_stream)
    ultimately show ?thesis
      unfolding downloadAsset_stream [OF assms that]
      by (simp add: sleeps_append writes_append)
  qed
  have 3: "r = \<lparr>asset = a, success = True, error = None, localPath = Some (filepath a)\<rparr>"
    if run: "downloadAllAssets h assetsDir mk apiResponse w = (Inr results, w')"
      and r: "r \<in> set results" "asset r = a" for results w' r
  proof -
    from run have "results = fst (downloadEach h assetsDir (concat (map p_assets (playlists apiResponse))) w)"
      by (cases mk) (simp_all add: downloadAllAssets_def split_beta Let_def)
    with downloadEach_stream [of h assetsDir "concat (map p_assets (playlists apiResponse))" w] r assms
    show ?thesis by auto
  qed
  from 1 2 3 show ?thesis by blast
qed

theorem C4_stream_success_witness:
  "isStreamAsset liveVideo
   \<and> fetched (net (answering 404) 0) = Inr 404
   \<and> fst (downloadAsset plainHost ''./assets/main'' liveVideo 3 (answering 404)) =
       \<lparr>asset = liveVideo, success = True, error = None, localPath = Some ''http://h/live/news.m3u8''\<rparr>
   \<and> fetched (net offline 0) = Inl (Error ''Network request failed'')
   \<and> fst (downloadAsset plainHost ''./assets/main'' liveVideo 3 offline) =
       \<lparr>asset = liveVideo, success = True, error = None, localPath = Some ''http://h/live/news.m3u8''\<rparr>"
proof -
  have s: "isStreamAsset liveVideo" by code_simp
  have f: "fetched (net (answering 404) 0) = Inr 404" by (simp add: answering_def)
  have g: "fetched (net offline 0) = Inl (Error ''Network request failed'')" by (simp add: offline_def)
  have p: "filepath liveVideo = ''http://h/live/news.m3u8''" by (simp add: liveVideo_def)
  have three: "(1::int) \<le> 3" by simp
  note run = C4_stream_success [OF s, of plainHost "''./assets/main''" 3, THEN conjunct2, THEN conjunct1, rule_format, OF three, THEN conjunct1]
  from run [of "answering 404"] run [of offline] s f g p
  show ?thesis by simp
qed

subsection \<open>Retry with backoff\<close>

text \<open>
  C5. For every asset and every retry bound \<open>n \<ge> 1\<close>, \<open>downloadAsset\<close> returns a
  DownloadResult: every exception of an attempt is caught by the loop. If the attempts
  before the \<open>j\<close>-th throw and the \<open>j\<close>-th decides (it returns, or it is the last one,
  \<open>j = n\<close>), then each attempt before the \<open>j\<close>-th is followed by a pause of
  \<open>2 ^ attempt\<close> seconds (handed to the timer in milliseconds: 2000, 4000, 8000, ...) and
  the next attempt; and if the last attempt throws too, the result has success false and
  carries the message of what that last attempt threw.
\<close>

theorem C5_retry_backoff:
  assumes "1 \<le> j" and "j \<le> n"
    and "\<forall>k\<in>{1..<j}. \<exists>e. fst (attempt h assetsDir a (answerAt w k)) = Inl e"
    and "j < n \<longrightarrow> (\<exists>r. fst (attempt h assetsDir a (answerAt w j)) = Inr r)"
  shows "fst (downloadAsset h assetsDir a n w) =
           (case fst (attempt h assetsDir a (answerAt w j)) of
              Inr r \<Rightarrow> r
            | Inl e \<Rightarrow> \<lparr>asset = a, success = False,
                        error = Some (messageOr ''Unknown error'' e), localPath = None\<rparr>)
     \<and> trace (snd (downloadAsset h assetsDir a n w)) =
         trace w
         @ concat (map (\<lambda>k. snd (attempt h assetsDir a (answerAt w k)) @ [Sleep (2 ^ nat k * 1000)])
                    [1..j - 1])
         @ snd (attempt h assetsDir a (answerAt w j))
         @ (case fst (attempt h assetsDir a (answerAt w j)) of
              Inl e \<Rightarrow> [Notify ''failed''] | Inr r \<Rightarrow> [])
     \<and> sleeps (trace (snd (downloadAsset h assetsDir a n w))) =
         sleeps (trace w) @ map (\<lambda>k. 2 ^ nat k * 1000) [1..j - 1]"
proof -
  have fails: "\<forall>k. 1 \<le> k \<and> k < j \<longrightarrow>
      (\<exists>e. fst (attempt h assetsDir a (net w (tick w + nat (k - 1)))) = Inl e)"
    using assms(3) by (simp add: answerAt_def)
  have last: "j < n \<longrightarrow> (\<exists>r. fst (attempt h assetsDir a (net w (tick w + nat (j - 1)))) = Inr r)"
    using assms(4) by (simp add: answerAt_def)
  note run = loop_run [OF assms(1,2) fails last]
  have 1: "fst (downloadAsset h assetsDir a n w) =
           (case fst (attempt h assetsDir a (answerAt w j)) of
              Inr r \<Rightarrow> r
            | Inl e \<Rightarrow> \<lparr>asset = a, success = False,
                        error = Some (messageOr ''Unknown error'' e), localPath = None\<rparr>)"
    unfolding downloadAsset_def run answerAt_def by simp
  have 2: "trace (snd (downloadAsset h assetsDir a n w)) =
         trace w
         @ concat (map (\<lambda>k. snd (attempt h assetsDir a (answerAt w k)) @ [Sleep (2 ^ nat k * 1000)])
                    [1..j - 1])
         @ snd (attempt h assetsDir a (answerAt w j))
         @ (case fst (attempt h assetsDir a (answerAt w j)) of
              Inl e \<Rightarrow> [Notify ''failed''] | Inr r \<Rightarrow> [])"
    unfolding downloadAsset_def run answerAt_def by simp
  have pauses: "sleeps (concat (map (\<lambda>k. snd (attempt h assetsDir a (answerAt w k)) @ [Sleep (2 ^ nat k * 1000)]) ks))
      = map (\<lambda>k. 2 ^ nat k * 1000) ks" for ks
    by (induction ks) (simp_all add: sleeps_append attempt_sleeps)
  have 3: "sleeps (trace (snd (downloadAsset h assetsDir a n w))) =
         sleeps (trace w) @ map (\<lambda>k. 2 ^ nat k * 1000) [1..j - 1]"
    unfolding 2 by (simp add: sleeps_append attempt_sleeps pauses split: sum.split)
  from 1 2 3 show ?thesis by blast
qed

theorem C5_retry_backoff_witness:
  "fst (downloadAsset plainHost ''./assets/main'' (image ''a'' ''1'' ''5'') 3 offline) =
     \<lparr>asset = image ''a'' ''1'' ''5'', success = False, error = Some ''Network request failed'',
      localPath = None\<rparr>
   \<and> sleeps (trace (snd (downloadAsset plainHost ''./assets/main'' (image ''a'' ''1'' ''5'') 3 offline))) =
       [2000, 4000]"
proof -
  let ?a = "image ''a'' ''1'' ''5''"
  have out: "fst (attempt plainHost ''./assets/main'' ?a (answerAt offline k)) =
      Inl (Error ''Network request failed'')" for k
    by (simp add: attempt_def answerAt_def offline_def image_def isStreamAsset_def)
  have fails: "\<forall>k\<in>{1..<3}. \<exists>e. fst (attempt plainHost ''./assets/main'' ?a (answerAt offline k)) = Inl e"
    by (simp add: out)
  have last: "(3::int) < 3 \<longrightarrow> (\<exists>r. fst (attempt plainHost ''./assets/main'' ?a (answerAt offline 3)) = Inr r)"
    by simp
  have upto: "[1..(2::int)] = [1, 2]"
    by (simp add: upto_rec1)
  have empty: "trace offline = []"
    by (simp add: offline_def)
  have bounds: "(1::int) \<le> 3" "(3::int) \<le> 3"
    by simp_all
  note run = C5_retry_backoff [OF bounds fails last]
  from run [THEN conjunct1] run [THEN conjunct2, THEN conjunct2] show ?thesis
    by (simp add: out upto empty)
qed

subsection \<open>The batch\<close>

lemma downloadAsset_inv:
  "asset (fst (downloadAsset h assetsDir a 3 w)) = a
   \<and> net (snd (downloadAsset h assetsDir a 3 w)) = net w
   \<and> tick w < tick (snd (downloadAsset h assetsDir a 3 w))
   \<and> tick (snd (downloadAsset h assetsDir a 3 w)) \<le> tick w + 3
   \<and> length (writes (trace (snd (downloadAsset h assetsDir a 3 w)))) =
       length (writes (trace w)) +
         (if success (fst (downloadAsset h assetsDir a 3 w)) \<and> \<not> isStreamAsset a then 1 else 0)"
  using downloadAsset_from_inv [of h assetsDir a 3 1 w] unfolding downloadAsset_def by simp

lemma downloadEach_inv:
  "map asset (fst (downloadEach h assetsDir as w)) = as
   \<and> tick w + length as \<le> tick (snd (downloadEach h assetsDir as w))
   \<and> tick (snd (downloadEach h assetsDir as w)) \<le> tick w + 3 * length as
   \<and> length (writes (trace (snd (downloadEach h assetsDir as w)))) =
       length (writes (trace w)) +
         length (filter (\<lambda>r. success r \<and> \<not> isStreamAsset (asset r)) (fst (downloadEach h assetsDir as w)))"
proof (induction as arbitrary: w)
  case Nil
  then show ?case by simp
next
  case (Cons a as)
  obtain r w1 where one: "downloadAsset h assetsDir a 3 w = (r, w1)"
    by (cases "downloadAsset h assetsDir a 3 w")
  let ?w2 = "if isDownloadable a then emit [Sleep 100] w1 else w1"
  obtain rs w3 where rest: "downloadEach h assetsDir as ?w2 = (rs, w3)"
    by (cases "downloadEach h assetsDir as ?w2")
  have eq: "downloadEach h assetsDir (a # as) w = (r # rs, w3)"
    by (simp add: one rest)
  from downloadAsset_inv [of h assetsDir a w] one
  have r: "asset r = a" and t1: "tick w < tick w1" "tick w1 \<le> tick w + 3"
    and wr1: "length (writes (trace w1)) =
       length (writes (trace w)) + (if success r \<and> \<not> isStreamAsset a then 1 else 0)"
    by simp_all
  have w2: "tick ?w2 = tick w1" "length (writes (trace ?w2)) = length (writes (trace w1))"
    by (simp_all add: emit_def writes_append)
  from Cons.IH [of ?w2] rest
  have rs: "map asset rs = as" and t3: "tick ?w2 + length as \<le> tick w3" "tick w3 \<le> tick ?w2 + 3 * length as"
    and wr3: "length (writes (trace w3)) =
       length (writes (trace ?w2)) + length (filter (\<lambda>r. success r \<and> \<not> isStreamAsset (asset r)) rs)"
    by simp_all
  show ?case
    unfolding eq using r rs t1 t3 wr1 wr3 unfolding w2 by auto
qed

lemma length_filter_concat:
  "length (filter P (concat xss)) = (\<Sum>xs\<leftarrow>xss. length (filter P xs))"
  by (induction xss) simp_all

lemma length_concat_sum: "length (concat xss) = (\<Sum>xs\<leftarrow>xss. length xs)"
  by (induction xss) simp_all

lemma downloadAllAssets_returns:
  "downloadAllAssets h assetsDir None m w =
     (Inr (fst (downloadEach h assetsDir (concat (map p_assets (playlists m))) w)),
      snd (downloadEach h assetsDir (concat (map p_assets (playlists m))) w))"
  by (simp add: downloadAllAssets_def split_beta Let_def)

lemma downloadAllAssets_throws:
  "fst (downloadAllAssets h assetsDir mk m w) = Inl e \<longleftrightarrow> mk = Some e"
  by (cases mk) (simp_all add: downloadAllAssets_def split_beta Let_def)

text \<open>
  C10. \<open>downloadAllAssets\<close> (the assets directory being there) returns one DownloadResult
  per membership, in manifest order: the list of the results' assets is the concatenation
  of the playlists' asset lists, so its length is the sum of the playlists' asset counts
  and an identifier listed \<open>k\<close> times has \<open>k\<close> results. Every membership is downloaded on
  its own: between one and three attempts each, and one file written per successful
  result that is not a stream. The orchestrator's \<open>totalAssets\<close> is the length of that
  list.
\<close>

theorem C10_one_result_per_membership:
  "\<exists>results w'. downloadAllAssets h assetsDir None m w = (Inr results, w')
     \<and> map asset results = concat (map p_assets (playlists m))
     \<and> length results = (\<Sum>p\<leftarrow>playlists m. length (p_assets p))
     \<and> (\<forall>x. length (filter (\<lambda>r. a_id (asset r) = x) results) =
             (\<Sum>p\<leftarrow>playlists m. length (filter (\<lambda>a. a_id a = x) (p_assets p))))
     \<and> tick w + length results \<le> tick w' \<and> tick w' \<le> tick w + 3 * length results
     \<and> length (writes (trace w')) =
         length (writes (trace w)) + length (filter (\<lambda>r. success r \<and> \<not> isStreamAsset (asset r)) results)
     \<and> (\<forall>t d cycles. \<exists>s. r_stats (prepareFinalResult t d m results cycles) = Some s
           \<and> totalAssets s = (\<Sum>p\<leftarrow>playlists m. length (p_assets p)))"
proof -
  let ?as = "concat (map p_assets (playlists m))"
  let ?results = "fst (downloadEach h assetsDir ?as w)"
  let ?w' = "snd (downloadEach h assetsDir ?as w)"
  note inv = downloadEach_inv [of h assetsDir ?as w]
  have assets: "map asset ?results = ?as"
    using inv by blast
  have len: "length ?results = (\<Sum>p\<leftarrow>playlists m. length (p_assets p))"
  proof -
    have "length ?results = length (map asset ?results)" by simp
    also have "\<dots> = length ?as" by (simp only: assets)
    finally show ?thesis by (simp add: length_concat_sum comp_def)
  qed
  have count: "length (filter (\<lambda>r. a_id (asset r) = x) ?results) =
             (\<Sum>p\<leftarrow>playlists m. length (filter (\<lambda>a. a_id a = x) (p_assets p)))" for x
  proof -
    have "length (filter (\<lambda>r. a_id (asset r) = x) ?results) =
          length (filter (\<lambda>a. a_id a = x) (map asset ?results))"
      by (simp add: filter_map comp_def)
    also have "\<dots> = length (filter (\<lambda>a. a_id a = x) ?as)" by (simp only: assets)
    finally show ?thesis by (simp add: length_filter_concat comp_def)
  qed
  have ticks: "tick w + length ?results \<le> tick ?w'" "tick ?w' \<le> tick w + 3 * length ?results"
    using inv assets by (metis length_map)+
  have wr: "length (writes (trace ?w')) =
      length (writes (trace w)) + length (filter (\<lambda>r. success r \<and> \<not> isStreamAsset (asset r)) ?results)"
    using inv by blast
  have total: "\<exists>s. r_stats (prepareFinalResult t d m ?results cycles) = Some s
           \<and> totalAssets s = (\<Sum>p\<leftarrow>playlists m. length (p_assets p))" for t d cycles
    by (simp add: prepareFinalResult_def len)
  show ?thesis
    unfolding downloadAllAssets_returns using assets len count ticks wr total by blast
qed

theorem C10_one_result_per_membership_witness:
  "map (\<lambda>r. a_id (asset r))
     (case fst (downloadAllAssets plainHost ''./assets/main'' None sharedSlide (answering 200)) of
        Inl e \<Rightarrow> [] | Inr results \<Rightarrow> results) = [''a'', ''b'', ''a'']
   \<and> writes (trace (snd (downloadAllAssets plainHost ''./assets/main'' None sharedSlide (answering 200)))) =
       [''assets/main/a_slide.png'', ''assets/main/b_slide.png'', ''assets/main/a_slide.png'']
   \<and> map (\<lambda>p. length (p_assets p)) (playlists sharedSlide) = [2, 1]
   \<and> map totalAssets (case r_stats (fst (initialize True plainHost (calm sharedSlide) (answering 200))) of
        None \<Rightarrow> [] | Some s \<Rightarrow> [s]) = [3]"
proof -
  have ids: "map (\<lambda>r. a_id (asset r))
     (case fst (downloadAllAssets plainHost ''./assets/main'' None sharedSlide (answering 200)) of
        Inl e \<Rightarrow> [] | Inr results \<Rightarrow> results) = [''a'', ''b'', ''a'']"
    by code_simp
  have wr: "writes (trace (snd (downloadAllAssets plainHost ''./assets/main'' None sharedSlide (answering 200)))) =
       [''assets/main/a_slide.png'', ''assets/main/b_slide.png'', ''assets/main/a_slide.png'']"
    by code_simp
  have counts: "map (\<lambda>p. length (p_assets p)) (playlists sharedSlide) = [2, 1]"
    by code_simp
  have total: "map totalAssets (case r_stats (fst (initialize True plainHost (calm sharedSlide) (answering 200))) of
        None \<Rightarrow> [] | Some s \<Rightarrow> [s]) = [3]"
    by code_simp
  from C10_one_result_per_membership [of plainHost "''./assets/main''" sharedSlide "answering 200"]
  obtain results w' where
    "downloadAllAssets plainHost ''./assets/main'' None sharedSlide (answering 200) = (Inr results, w')"
    and "length results = (\<Sum>p\<leftarrow>playlists sharedSlide. length (p_assets p))"
    by blast
  with ids wr counts total show ?thesis by simp
qed

subsection \<open>File names\<close>







text \<open>
  The identifier is put in front as it is. So file names can coincide where identifiers
  differ (the separator is an underscore, which identifiers and names may contain), and
  file names that differ can be joined to one path (\<open>path.join\<close> normalises): the
  prefix does not avoid every conflict, as the source's comment has it. Likewise the
  extension table, an object literal, answers for the file type \<open>constructor\<close> with what
  it inherits.
\<close>

lemma same_file_name:
  "generateSafeFilename plainHost
      \<lparr>a_id = ''a'', a_name = ''b_c.png'', filepath = ''media/x'', filetype = ''image'',
       playing_order = ''1'', time = ''5''\<rparr> = Inr ''a_b_c.png''
   \<and> generateSafeFilename plainHost
      \<lparr>a_id = ''a_b'', a_name = ''c.png'', filepath = ''media/y'', filetype = ''image'',
       playing_order = ''2'', time = ''5''\<rparr> = Inr ''a_b_c.png''"
  by code_simp

lemma same_stored_path:
  "localPath (fst (downloadAsset plainHost ''./assets/main'' (image ''./a'' ''1'' ''5'') 3 (answering 200)))
     = Some ''assets/main/a_slide.png''
   \<and> localPath (fst (downloadAsset plainHost ''./assets/main'' (image ''a'' ''1'' ''5'') 3 (answering 200)))
     = Some ''assets/main/a_slide.png''"
  by code_simp

lemma inherited_extension:
  "generateSafeFilename plainHost
      \<lparr>a_id = ''7'', a_name = ''clip'', filepath = ''media/x'', filetype = ''constructor'',
       playing_order = ''1'', time = ''5''\<rparr> = Inr ''7_clipfunction Object() { [native code] }''"
  by code_simp




subsection \<open>Validation of the initialization result\<close>

lemma find_filter: "find P xs = (case filter P xs of [] \<Rightarrow> None | x # ys \<Rightarrow> Some x)"
  by (induction xs) simp_all

lemma getDefaultPlaylist_spec: "getDefaultPlaylist cycles = spec_selected cycles"
  by (simp add: getDefaultPlaylist_def spec_selected_def find_filter split: list.splits)

lemma validateResult_iff:
  "validateResult result \<longleftrightarrow>
     r_success result \<and>
     (\<exists>cycles d. r_playlistCycles result = Some cycles \<and> cycles \<noteq> []
        \<and> spec_selected cycles = Some d \<and> assets d \<noteq> [])"
  by (auto simp: validateResult_def getDefaultPlaylist_spec split: option.splits)

lemma validated_example:
  "r_success (validated
     \<lparr>r_success = True, r_deviceName = None, r_apiResponse = None, r_downloadResults = None,
      r_playlistCycles = Some [newYearCycle\<lparr>assets := [], isDefault := False\<rparr>, newYearCycle],
      r_defaultPlaylist = Some newYearCycle, r_error = None, r_stats = None\<rparr>)
   \<and> \<not> r_success (validated
     \<lparr>r_success = True, r_deviceName = None, r_apiResponse = None, r_downloadResults = None,
      r_playlistCycles = Some [newYearCycle\<lparr>assets := []\<rparr>, newYearCycle],
      r_defaultPlaylist = Some (newYearCycle\<lparr>assets := []\<rparr>), r_error = None, r_stats = None\<rparr>)"
  by code_simp

text \<open>
  C9. Take any result that holds zero PlaylistCycles, or whose selected cycle (the first
  one flagged default, else the first cycle) has zero assets. The validation rejects it,
  also when the result itself reports success; and when it is what \<open>initialize\<close> returned,
  \<open>initializeDigitalSignage\<close> returns a result with success false and the error
  "Initialization validation failed" in its place.
\<close>

theorem C9_validation_rejects:
  assumes "r_playlistCycles result = Some cycles"
    and "cycles = [] \<or> (\<exists>d. spec_selected cycles = Some d \<and> assets d = [])"
  shows "\<not> validateResult result
     \<and> r_success (validated result) = False
     \<and> r_error (validated result) = Some ''Initialization validation failed''
     \<and> (fst (initialize clearAssetsOnStart h env w) = result \<longrightarrow>
          fst (initializeDigitalSignage clearAssetsOnStart h env w) = validated result)"
proof -
  have no: "\<not> validateResult result"
    using assms by (auto simp: validateResult_iff)
  have "fst (initializeDigitalSignage clearAssetsOnStart h env w) =
        validated (fst (initialize clearAssetsOnStart h env w))"
    by (simp add: initializeDigitalSignage_def split_beta)
  with no show ?thesis by (simp add: validated_def failure_def)
qed

theorem C9_validation_rejects_witness:
  "r_success (fst (initialize True plainHost (calm (manifestOf [playlistOf ''p'' slides])) (answering 500)))
   \<and> r_playlistCycles (fst (initialize True plainHost (calm (manifestOf [playlistOf ''p'' slides])) (answering 500)))
       = Some []
   \<and> r_success (fst (initializeDigitalSignage True plainHost (calm (manifestOf [playlistOf ''p'' slides]))
       (answering 500))) = False"
proof -
  let ?env = "calm (manifestOf [playlistOf ''p'' slides])"
  have ok: "r_success (fst (initialize True plainHost ?env (answering 500)))"
    by code_simp
  have none: "r_playlistCycles (fst (initialize True plainHost ?env (answering 500))) = Some []"
    by code_simp
  have zero: "[] = ([] :: PlaylistCycle list) \<or> (\<exists>d. spec_selected [] = Some d \<and> assets d = [])"
    by simp
  from C9_validation_rejects [OF none zero, of True plainHost ?env "answering 500"] ok none
  show ?thesis by simp
qed

end
